theory Spec2Isabelle
  imports Main "HOL-Library.AList"
begin

section \<open>Python strings and the regular expressions of the tool\<close>

text \<open>
  The program is \<^verbatim>\<open>tools/verify_page_descriptions.py\<close>. A Python \<^verbatim>\<open>str\<close> is modelled as
  a \<open>string\<close>; a \<open>char\<close> stands for the code point of the same number, so the texts
  covered are those whose code points are below 256. The character classes below are
  Python's on that range: \<^verbatim>\<open>str.isspace\<close> (which is also \<^verbatim>\<open>\s\<close> of \<^verbatim>\<open>re\<close> on a
  \<^verbatim>\<open>str\<close> pattern), \<^verbatim>\<open>\w\<close>, the class \<^verbatim>\<open>[A-Za-z0-9]\<close> and \<^verbatim>\<open>str.lower\<close>.
\<close>

definition code :: "char \<Rightarrow> nat" where
  "code c = of_char c"

definition sq :: char where
  "sq = CHR 0x27"

definition dq :: char where
  "dq = CHR 0x22"

definition nl :: char where
  "nl = CHR 0x0A"

definition py_isspace :: "char \<Rightarrow> bool" where
  "py_isspace c = (code c \<in> {9, 10, 11, 12, 13, 28, 29, 30, 31, 32, 133, 160})"

definition alnum :: "char \<Rightarrow> bool" where
  "alnum c = ((48 \<le> code c \<and> code c \<le> 57) \<or> (65 \<le> code c \<and> code c \<le> 90)
     \<or> (97 \<le> code c \<and> code c \<le> 122))"

definition re_word :: "char \<Rightarrow> bool" where
  "re_word c = (alnum c \<or> code c = 95
     \<or> code c \<in> {170, 178, 179, 181, 185, 186, 188, 189, 190}
     \<or> (192 \<le> code c \<and> code c \<noteq> 215 \<and> code c \<noteq> 247))"

definition py_lower_char :: "char \<Rightarrow> char" where
  "py_lower_char c =
     (if (65 \<le> code c \<and> code c \<le> 90) \<or> (192 \<le> code c \<and> code c \<le> 222 \<and> code c \<noteq> 215)
      then char_of (code c + 32) else c)"

definition py_lower :: "string \<Rightarrow> string" where
  "py_lower s = map py_lower_char s"

text \<open>\<^verbatim>\<open>s.strip(chars)\<close>, with the set of stripped characters as a predicate.\<close>

definition strip_chars :: "(char \<Rightarrow> bool) \<Rightarrow> string \<Rightarrow> string" where
  "strip_chars P s = rev (dropWhile P (rev (dropWhile P s)))"

definition py_strip :: "string \<Rightarrow> string" where
  "py_strip s = strip_chars py_isspace s"

text \<open>\<^verbatim>\<open>s.startswith(p)\<close>, returning what follows the prefix.\<close>

fun strip_prefix :: "string \<Rightarrow> string \<Rightarrow> string option" where
  "strip_prefix [] s = Some s"
| "strip_prefix (p # ps) [] = None"
| "strip_prefix (p # ps) (c # cs) = (if p = c then strip_prefix ps cs else None)"

text \<open>\<^verbatim>\<open>sub in s\<close>.\<close>

fun contains :: "string \<Rightarrow> string \<Rightarrow> bool" where
  "contains sub [] = (sub = [])"
| "contains sub (c # cs) = (strip_prefix sub (c # cs) \<noteq> None \<or> contains sub cs)"

definition endswith :: "string \<Rightarrow> string \<Rightarrow> bool" where
  "endswith s suffix = (strip_prefix (rev suffix) (rev s) \<noteq> None)"

text \<open>
  The leftmost occurrence of \<open>sep\<close> in \<open>s\<close>: what is before it and what is after it.
  It serves \<^verbatim>\<open>str.split\<close> and the lazy group \<^verbatim>\<open>([\s\S]*?)\<close> followed by a literal.
\<close>

fun break_at :: "string \<Rightarrow> string \<Rightarrow> (string \<times> string) option" where
  "break_at sep [] = (if sep = [] then Some ([], []) else None)"
| "break_at sep (c # cs) =
     (case strip_prefix sep (c # cs) of
        Some r \<Rightarrow> Some ([], r)
      | None \<Rightarrow> (case break_at sep cs of Some (a, r) \<Rightarrow> Some (c # a, r) | None \<Rightarrow> None))"

lemma strip_prefix_Some: "strip_prefix p s = Some r \<longleftrightarrow> s = p @ r"
  by (induction p s rule: strip_prefix.induct) auto

lemma break_at_Some: "break_at sep s = Some (a, r) \<Longrightarrow> s = a @ sep @ r"
proof (induction s arbitrary: a)
  case Nil
  then show ?case by (simp split: if_splits)
next
  case (Cons c cs)
  show ?case
  proof (cases "strip_prefix sep (c # cs)")
    case (Some r')
    with Cons.prems show ?thesis by (simp add: strip_prefix_Some)
  next
    case None
    with Cons.prems obtain a' where "break_at sep cs = Some (a', r)" "a = c # a'"
      by (auto split: option.splits)
    with Cons.IH show ?thesis by simp
  qed
qed

text \<open>\<^verbatim>\<open>value.split("||")\<close>.\<close>

function split_bars :: "string \<Rightarrow> string list" where
  "split_bars s =
     (case break_at ''||'' s of None \<Rightarrow> [s] | Some (a, r) \<Rightarrow> a # split_bars r)"
  by pat_completeness auto
termination
  by (relation "measure length") (auto dest: break_at_Some)

declare split_bars.simps [simp del]

text \<open>
  \<^verbatim>\<open>re.sub(r"[...]+", rep, s)\<close> for a character class \<open>P\<close>: every maximal run of
  characters of the class is replaced by \<open>rep\<close>.
\<close>

function re_sub_runs :: "(char \<Rightarrow> bool) \<Rightarrow> string \<Rightarrow> string \<Rightarrow> string" where
  "re_sub_runs P rep [] = []"
| "re_sub_runs P rep (c # cs) =
     (if P c then rep @ re_sub_runs P rep (dropWhile P cs) else c # re_sub_runs P rep cs)"
  by pat_completeness auto
termination
  by (relation "measure (\<lambda>(P, rep, s). length s)")
     (auto simp: less_Suc_eq_le length_dropWhile_le)

text \<open>
  \<^verbatim>\<open>dict(pairs)\<close>: a dictionary is an association list in insertion order; a key
  set again keeps its place and takes the new value.
\<close>

type_synonym py_dict = "(string \<times> string) list"

definition dict :: "(string \<times> string) list \<Rightarrow> py_dict" where
  "dict pairs = foldl (\<lambda>d (k, v). AList.update k v d) [] pairs"

definition has_key :: "py_dict \<Rightarrow> string \<Rightarrow> bool" where
  "has_key d k = (map_of d k \<noteq> None)"

section \<open>slugify\<close>

text \<open>
  \<^verbatim>\<open>
  def slugify(value: str) -> str:
      value = re.sub(r"[^A-Za-z0-9]+", "-", value.strip().lower())
      value = re.sub(r"-+", "-", value).strip("-")
      return value
  \<close>
\<close>

definition hyphen :: "char \<Rightarrow> bool" where
  "hyphen c = (c = CHR ''-'')"

definition non_alnum :: "char \<Rightarrow> bool" where
  "non_alnum c = (\<not> alnum c)"

definition slugify :: "string \<Rightarrow> string" where
  "slugify v =
     (let v1 = re_sub_runs non_alnum ''-'' (py_lower (py_strip v));
          v2 = strip_chars hyphen (re_sub_runs hyphen ''-'' v1)
      in v2)"

text \<open>
  The shape that the specification gives for a slug, \<^verbatim>\<open>^[a-z0-9]+(-[a-z0-9]+)*$\<close>,
  as a recogniser: \<open>slug_seg\<close> is at the start of a segment, \<open>slug_more\<close> is after at
  least one character of a segment.
\<close>

definition lower_alnum :: "char \<Rightarrow> bool" where
  "lower_alnum c = ((48 \<le> code c \<and> code c \<le> 57) \<or> (97 \<le> code c \<and> code c \<le> 122))"

fun slug_seg :: "string \<Rightarrow> bool" and slug_more :: "string \<Rightarrow> bool" where
  "slug_seg [] = False"
| "slug_seg (c # cs) = (lower_alnum c \<and> slug_more cs)"
| "slug_more [] = True"
| "slug_more (c # cs) = (if lower_alnum c then slug_more cs else c = CHR ''-'' \<and> slug_seg cs)"

text \<open>The same shape in words: no two neighbours both in \<open>P\<close>, only slug characters.\<close>

fun no_adj :: "(char \<Rightarrow> bool) \<Rightarrow> string \<Rightarrow> bool" where
  "no_adj P (a # b # cs) = (\<not> (P a \<and> P b) \<and> no_adj P (b # cs))"
| "no_adj P cs = True"

definition slug_chars :: "string \<Rightarrow> bool" where
  "slug_chars w = (\<forall>c \<in> set w. lower_alnum c \<or> c = CHR ''-'')"

definition canonical :: "string \<Rightarrow> bool" where
  "canonical w = (slug_chars w \<and> no_adj hyphen w
     \<and> (w \<noteq> [] \<longrightarrow> hd w \<noteq> CHR ''-'' \<and> last w \<noteq> CHR ''-''))"

section \<open>read\_layout\_lookup\<close>

text \<open>
  \<^verbatim>\<open>
  entries_match = re.search(
      r"var __layoutPageDescriptionEntries = \{([\s\S]*?)\};", layout_text)
  if not entries_match:
      raise RuntimeError("Could not locate __layoutPageDescriptionEntries in layout.html")
  entries = dict(re.findall(r"'([^']+)':\s*'([^']+)'", entries_match.group(1)))
  lookup = {}
  for key, description in entries.items():
      if not description:
          continue
      lookup[key] = description
      collapsed = key.replace("-", "")
      if collapsed and collapsed != key and collapsed not in entries and collapsed not in lookup:
          lookup[collapsed] = description
  return lookup
  \<close>
  The function takes the text of \<^verbatim>\<open>layout.html\<close>, which the source reads first.
\<close>

datatype error = RuntimeError string

definition marker :: string where
  "marker = ''var __layoutPageDescriptionEntries = {''"

text \<open>
  The pattern at the start of \<open>s\<close>: the literal, then the shortest group that is
  followed by \<^verbatim>\<open>};\<close>. The result is group 1.
\<close>

definition match_entries_block :: "string \<Rightarrow> string option" where
  "match_entries_block s =
     (case strip_prefix marker s of
        None \<Rightarrow> None
      | Some r \<Rightarrow> (case break_at ''};'' r of None \<Rightarrow> None | Some (block, rest) \<Rightarrow> Some block))"

text \<open>\<^verbatim>\<open>re.search\<close>: the match at the leftmost position that has one.\<close>

fun search_entries_block :: "string \<Rightarrow> string option" where
  "search_entries_block [] = match_entries_block []"
| "search_entries_block (c # cs) =
     (case match_entries_block (c # cs) of
        Some block \<Rightarrow> Some block
      | None \<Rightarrow> search_entries_block cs)"

definition not_sq :: "char \<Rightarrow> bool" where
  "not_sq c = (c \<noteq> sq)"

text \<open>
  \<^verbatim>\<open>'([^']+)':\s*'([^']+)'\<close> at the start of \<open>s\<close>: key, value and what follows the
  match. Each greedy part is followed by a character outside its class, so the
  longest run is the only way to match.
\<close>

definition match_entry :: "string \<Rightarrow> (string \<times> string \<times> string) option" where
  "match_entry s =
     (case s of
        [] \<Rightarrow> None
      | q # s1 \<Rightarrow>
          if q \<noteq> sq \<or> takeWhile not_sq s1 = [] then None
          else (case dropWhile not_sq s1 of
                  [] \<Rightarrow> None
                | q2 # [] \<Rightarrow> None
                | q2 # colon # s2 \<Rightarrow>
                    if colon \<noteq> CHR '':'' then None
                    else (case dropWhile py_isspace s2 of
                            [] \<Rightarrow> None
                          | q3 # s3 \<Rightarrow>
                              if q3 \<noteq> sq \<or> takeWhile not_sq s3 = [] then None
                              else (case dropWhile not_sq s3 of
                                      [] \<Rightarrow> None
                                    | q4 # rest \<Rightarrow>
                                        Some (takeWhile not_sq s1, takeWhile not_sq s3, rest)))))"

lemma dropWhile_Cons_shorter: "dropWhile P xs = y # ys \<Longrightarrow> length ys < length xs"
proof -
  assume "dropWhile P xs = y # ys"
  moreover have "length (dropWhile P xs) \<le> length xs" by (rule length_dropWhile_le)
  ultimately show "length ys < length xs" by simp
qed

lemma match_entry_shorter: "match_entry s = Some (k, v, rest) \<Longrightarrow> length rest < length s"
proof -
  assume a: "match_entry s = Some (k, v, rest)"
  from a obtain q s1 q2 colon s2 q3 s3 q4 where
    s: "s = q # s1" and 1: "dropWhile not_sq s1 = q2 # colon # s2"
    and 2: "dropWhile py_isspace s2 = q3 # s3" and 3: "dropWhile not_sq s3 = q4 # rest"
    by (auto simp: match_entry_def split: list.splits if_splits)
  from dropWhile_Cons_shorter[OF 3] dropWhile_Cons_shorter[OF 2] dropWhile_Cons_shorter[OF 1] s
  show ?thesis by simp
qed

text \<open>\<^verbatim>\<open>re.findall\<close>: matches from left to right, each search starting where the last match ended.\<close>

function findall_entries :: "string \<Rightarrow> (string \<times> string) list" where
  "findall_entries [] = []"
| "findall_entries (c # cs) =
     (case match_entry (c # cs) of
        Some (k, v, rest) \<Rightarrow> (k, v) # findall_entries rest
      | None \<Rightarrow> findall_entries cs)"
  by pat_completeness auto
termination
  by (relation "measure length") (auto dest: match_entry_shorter)

text \<open>
  The body of the loop, on one item of \<open>entries\<close>, and the loop;
  \<open>remove_hyphens\<close> is \<^verbatim>\<open>key.replace("-", "")\<close>.
\<close>

definition remove_hyphens :: "string \<Rightarrow> string" where
  "remove_hyphens key = filter (\<lambda>c. c \<noteq> CHR ''-'') key"

definition register :: "py_dict \<Rightarrow> py_dict \<Rightarrow> string \<times> string \<Rightarrow> py_dict" where
  "register entries lookup item =
     (case item of (key, description) \<Rightarrow>
        if description = [] then lookup
        else let lookup1 = AList.update key description lookup;
                 collapsed = remove_hyphens key
             in if collapsed \<noteq> [] \<and> collapsed \<noteq> key \<and> \<not> has_key entries collapsed
                   \<and> \<not> has_key lookup1 collapsed
                then AList.update collapsed description lookup1
                else lookup1)"

definition build_lookup :: "py_dict \<Rightarrow> py_dict" where
  "build_lookup entries = foldl (register entries) [] entries"

definition read_layout_lookup :: "string \<Rightarrow> error + py_dict" where
  "read_layout_lookup layout_text =
     (case search_entries_block layout_text of
        None \<Rightarrow> Inl (RuntimeError ''Could not locate __layoutPageDescriptionEntries in layout.html'')
      | Some block \<Rightarrow> Inr (build_lookup (dict (findall_entries block))))"

section \<open>iter\_layout\_pages\<close>

text \<open>
  \<^verbatim>\<open>
  include_pattern = re.compile(r"include\((?:'|\")layout(?:'|\")\s*,\s*\{([\s\S]*?)\}\)")
  for current_root, _, files in os.walk(root):
      for filename in files:
          if not filename.endswith(".html"):
              continue
          path = os.path.join(current_root, filename)
          with open(path, "r", encoding="utf-8", errors="ignore") as handle:
              text = handle.read()
          match = include_pattern.search(text)
          if not match:
              continue
          block = match.group(1)
          has_inline_description = "pageDescription" in block
          props = dict(re.findall(r"(\w+)\s*:\s*([^,\n]+)", block))
          slug_candidate = ""
          for key in ("pageSlug", "currentPage"):
              if key in props:
                  value = props[key]
                  if "||" in value:
                      value = value.split("||")[1]
                  value = re.sub(r"['\"()]", "", value).strip()
                  if value:
                      slug_candidate = value
                      break
          if not slug_candidate:
              slug_candidate = os.path.splitext(filename)[0]
          yield path, slugify(slug_candidate), has_inline_description
  \<close>
\<close>

definition is_quote :: "char \<Rightarrow> bool" where
  "is_quote c = (c = sq \<or> c = dq)"

text \<open>
  The pattern up to and including the opening brace, at the start of \<open>s\<close>; the
  result is what follows the brace. The two quotes need not be the same.
\<close>

definition match_include_head :: "string \<Rightarrow> string option" where
  "match_include_head s =
     (case strip_prefix ''include('' s of
        None \<Rightarrow> None
      | Some [] \<Rightarrow> None
      | Some (q1 # s1) \<Rightarrow>
          if \<not> is_quote q1 then None
          else (case strip_prefix ''layout'' s1 of
                  None \<Rightarrow> None
                | Some [] \<Rightarrow> None
                | Some (q2 # s2) \<Rightarrow>
                    if \<not> is_quote q2 then None
                    else (case dropWhile py_isspace s2 of
                            [] \<Rightarrow> None
                          | comma # s3 \<Rightarrow>
                              if comma \<noteq> CHR '','' then None
                              else (case dropWhile py_isspace s3 of
                                      [] \<Rightarrow> None
                                    | brace # s4 \<Rightarrow>
                                        if brace \<noteq> CHR ''{'' then None else Some s4))))"

text \<open>The whole pattern at the start of \<open>s\<close>: group 1, the shortest text followed by \<^verbatim>\<open>})\<close>.\<close>

definition match_include :: "string \<Rightarrow> string option" where
  "match_include s =
     (case match_include_head s of
        None \<Rightarrow> None
      | Some r \<Rightarrow> (case break_at ''})'' r of None \<Rightarrow> None | Some (block, rest) \<Rightarrow> Some block))"

text \<open>\<^verbatim>\<open>include_pattern.search(text)\<close>: group 1 of the match at the leftmost position that has one.\<close>

fun include_search :: "string \<Rightarrow> string option" where
  "include_search [] = match_include []"
| "include_search (c # cs) =
     (case match_include (c # cs) of
        Some block \<Rightarrow> Some block
      | None \<Rightarrow> include_search cs)"

text \<open>
  \<^verbatim>\<open>(\w+)\s*:\s*([^,\n]+)\<close> at the start of \<open>s\<close>. The last part, \<^verbatim>\<open>\s*([^,\n]+)\<close>,
  backtracks: a white-space character other than the line feed is also a value
  character, so when nothing follows the white space the group takes back from it.
\<close>

definition value_char :: "char \<Rightarrow> bool" where
  "value_char c = (c \<noteq> CHR '','' \<and> c \<noteq> nl)"

definition match_value :: "string \<Rightarrow> (string \<times> string) option" where
  "match_value s =
     (if takeWhile value_char s = [] then None
      else Some (takeWhile value_char s, dropWhile value_char s))"

fun match_space_value :: "string \<Rightarrow> (string \<times> string) option" where
  "match_space_value [] = None"
| "match_space_value (c # cs) =
     (if py_isspace c
      then (case match_space_value cs of
              Some r \<Rightarrow> Some r
            | None \<Rightarrow> match_value (c # cs))
      else match_value (c # cs))"

definition match_prop :: "string \<Rightarrow> (string \<times> string \<times> string) option" where
  "match_prop s =
     (if takeWhile re_word s = [] then None
      else (case dropWhile py_isspace (dropWhile re_word s) of
              [] \<Rightarrow> None
            | colon # s1 \<Rightarrow>
                if colon \<noteq> CHR '':'' then None
                else (case match_space_value s1 of
                        None \<Rightarrow> None
                      | Some (v, rest) \<Rightarrow> Some (takeWhile re_word s, v, rest))))"

lemma match_value_shorter: "match_value s = Some (v, rest) \<Longrightarrow> length rest \<le> length s"
  by (auto simp: match_value_def length_dropWhile_le split: if_splits)

lemma match_space_value_shorter:
  "match_space_value s = Some (v, rest) \<Longrightarrow> length rest \<le> length s"
proof (induction s)
  case Nil
  then show ?case by simp
next
  case (Cons c cs)
  show ?case
  proof (cases "py_isspace c \<and> match_space_value cs \<noteq> None")
    case True
    with Cons.prems have "match_space_value cs = Some (v, rest)" by auto
    with Cons.IH show ?thesis by simp
  next
    case False
    with Cons.prems have "match_value (c # cs) = Some (v, rest)"
      by (auto split: if_splits option.splits)
    then show ?thesis by (rule match_value_shorter)
  qed
qed

lemma match_prop_shorter: "match_prop s = Some (k, v, rest) \<Longrightarrow> length rest < length s"
proof -
  assume a: "match_prop s = Some (k, v, rest)"
  then obtain colon s1 where 1: "dropWhile py_isspace (dropWhile re_word s) = colon # s1"
    and 2: "match_space_value s1 = Some (v, rest)"
    by (auto simp: match_prop_def split: if_splits list.splits option.splits)
  have "length s1 < length (dropWhile re_word s)" using 1 by (rule dropWhile_Cons_shorter)
  moreover have "length (dropWhile re_word s) \<le> length s" by (rule length_dropWhile_le)
  moreover have "length rest \<le> length s1" using 2 by (rule match_space_value_shorter)
  ultimately show ?thesis by simp
qed

function findall_props :: "string \<Rightarrow> (string \<times> string) list" where
  "findall_props [] = []"
| "findall_props (c # cs) =
     (case match_prop (c # cs) of
        Some (k, v, rest) \<Rightarrow> (k, v) # findall_props rest
      | None \<Rightarrow> findall_props cs)"
  by pat_completeness auto
termination
  by (relation "measure length") (auto dest: match_prop_shorter)

text \<open>
  The value of one property as the loop works it out: element 1 of the split when
  the value has \<^verbatim>\<open>||\<close> (the guard makes the split at least two long, see
  \<open>split_bars_length\<close>), then \<^verbatim>\<open>re.sub(r"['\"()]", "", value).strip()\<close>.
\<close>

definition quote_or_paren :: "char \<Rightarrow> bool" where
  "quote_or_paren c = (c = sq \<or> c = dq \<or> c = CHR ''('' \<or> c = CHR '')'')"

definition clean_value :: "string \<Rightarrow> string" where
  "clean_value v =
     (let v1 = (if contains ''||'' v then split_bars v ! 1 else v)
      in py_strip (filter (\<lambda>c. \<not> quote_or_paren c) v1))"

text \<open>The loop over the keys, with its \<^verbatim>\<open>break\<close>; the result is \<^verbatim>\<open>slug_candidate\<close> after it.\<close>

fun candidate_from_props :: "py_dict \<Rightarrow> string list \<Rightarrow> string" where
  "candidate_from_props props [] = []"
| "candidate_from_props props (key # keys) =
     (case map_of props key of
        None \<Rightarrow> candidate_from_props props keys
      | Some v \<Rightarrow>
          if clean_value v \<noteq> [] then clean_value v
          else candidate_from_props props keys)"

text \<open>
  \<^verbatim>\<open>os.path.splitext(p)[0]\<close> and \<^verbatim>\<open>os.path.join(a, b)\<close> of \<^verbatim>\<open>posixpath\<close>. The
  extension starts at the last dot after the last slash, unless only dots are before it.
\<close>

definition rfind :: "char \<Rightarrow> string \<Rightarrow> nat option" where
  "rfind c s =
     (if c \<in> set s then Some (length s - 1 - length (takeWhile (\<lambda>x. x \<noteq> c) (rev s))) else None)"

definition splitext_root :: "string \<Rightarrow> string" where
  "splitext_root p =
     (case rfind (CHR ''.'') p of
        None \<Rightarrow> p
      | Some dotIndex \<Rightarrow>
          let filenameIndex = (case rfind (CHR ''/'') p of None \<Rightarrow> 0 | Some sepIndex \<Rightarrow> sepIndex + 1)
          in if filenameIndex \<le> dotIndex
                \<and> (\<exists>x \<in> set (take (dotIndex - filenameIndex) (drop filenameIndex p)). x \<noteq> CHR ''.'')
             then take dotIndex p else p)"

definition path_join :: "string \<Rightarrow> string \<Rightarrow> string" where
  "path_join a b =
     (if strip_prefix ''/'' b \<noteq> None then b
      else if a = [] \<or> endswith a ''/'' then a @ b
      else a @ ''/'' @ b)"

definition slug_candidate :: "string \<Rightarrow> string \<Rightarrow> string" where
  "slug_candidate block filename =
     (let c = candidate_from_props (dict (findall_props block)) [''pageSlug'', ''currentPage'']
      in if c = [] then splitext_root filename else c)"

text \<open>
  A page record is \<^verbatim>\<open>(path, slug, has_inline_description)\<close>. A file of the walk is
  \<^verbatim>\<open>(current_root, filename, text)\<close>: the directory that \<^verbatim>\<open>os.walk\<close> is in, the name
  and what reading the file gives. \<open>scan_file\<close> is the body of the inner loop, with
  \<open>None\<close> for \<^verbatim>\<open>continue\<close>; the generator yields in the order of the walk.
\<close>

type_synonym page = "string \<times> string \<times> bool"

type_synonym html_file = "string \<times> string \<times> string"

definition scan_file :: "html_file \<Rightarrow> page option" where
  "scan_file f =
     (case f of (current_root, filename, text) \<Rightarrow>
        if \<not> endswith filename ''.html'' then None
        else (case include_search text of
                None \<Rightarrow> None
              | Some block \<Rightarrow>
                  Some (path_join current_root filename,
                        slugify (slug_candidate block filename),
                        contains ''pageDescription'' block)))"

definition iter_layout_pages :: "html_file list \<Rightarrow> page list" where
  "iter_layout_pages walk = List.map_filter scan_file walk"

section \<open>main\<close>

text \<open>
  \<^verbatim>\<open>
  def main() -> int:
      lookup = read_layout_lookup()
      missing = []
      coverage = []
      for path, slug, has_inline in iter_layout_pages(ROOT):
          if has_inline:
              coverage.append((path, slug))
              continue
          if slug not in lookup:
              missing.append((path, slug))
          else:
              coverage.append((path, slug))
      report = {"total_pages": len(coverage), "missing_descriptions": missing}
      print(json.dumps(report, indent=2, sort_keys=True))
      if missing:
          for path, slug in missing:
              print(f"Missing description for slug '{slug}' from {path}", file=sys.stderr)
          return 1
      return 0
  \<close>
  The script ends with \<^verbatim>\<open>raise SystemExit(main())\<close>, so the value returned is the exit
  status. What is printed is a list of events in the order of the calls to
  \<^verbatim>\<open>print\<close>; the event for the report carries the report object that
  \<^verbatim>\<open>json.dumps\<close> serialises.
\<close>

record report =
  total_pages :: int
  missing_descriptions :: "(string \<times> string) list"

datatype event = Stdout report | Stderr string

text \<open>The body of the loop on one page record; the state is \<^verbatim>\<open>(coverage, missing)\<close>.\<close>

definition classify ::
  "py_dict \<Rightarrow> (string \<times> string) list \<times> (string \<times> string) list \<Rightarrow> page
   \<Rightarrow> (string \<times> string) list \<times> (string \<times> string) list" where
  "classify lookup st pg =
     (case st of (coverage, missing) \<Rightarrow>
      case pg of (path, slug, has_inline) \<Rightarrow>
        if has_inline then (coverage @ [(path, slug)], missing)
        else if \<not> has_key lookup slug then (coverage, missing @ [(path, slug)])
        else (coverage @ [(path, slug)], missing))"

definition missing_line :: "string \<times> string \<Rightarrow> string" where
  "missing_line m =
     (case m of (path, slug) \<Rightarrow>
        ''Missing description for slug '' @ [sq] @ slug @ [sq] @ '' from '' @ path)"

definition classify_pages ::
  "py_dict \<Rightarrow> page list \<Rightarrow> (string \<times> string) list \<times> (string \<times> string) list" where
  "classify_pages lookup pages = foldl (classify lookup) ([], []) pages"

definition main :: "string \<Rightarrow> html_file list \<Rightarrow> error + (event list \<times> int)" where
  "main layout_text walk =
     (case read_layout_lookup layout_text of
        Inl e \<Rightarrow> Inl e
      | Inr lookup \<Rightarrow>
          (case classify_pages lookup (iter_layout_pages walk) of
             (coverage, missing) \<Rightarrow>
               let report = \<lparr>total_pages = int (length coverage), missing_descriptions = missing\<rparr>
               in if missing \<noteq> []
                  then Inr ([Stdout report] @ map (\<lambda>m. Stderr (missing_line m)) missing, 1)
                  else Inr ([Stdout report], 0)))"

text \<open>
  The strings that the pattern of the include matches up to and including the
  opening brace.
\<close>

definition include_header :: "string \<Rightarrow> bool" where
  "include_header h =
     (\<exists>q1 q2 w1 w2. is_quote q1 \<and> is_quote q2
        \<and> (\<forall>c \<in> set w1. py_isspace c) \<and> (\<forall>c \<in> set w2. py_isspace c)
        \<and> h = ''include('' @ q1 # ''layout'' @ q2 # w1 @ CHR '','' # w2 @ ''{'')"


text \<open>
  The classification in the words of the specification: a page with an inline
  description is covered whatever the lookup holds; otherwise it is covered when its
  slug is a key of the lookup; otherwise it is missing. Both lists hold the pair
  \<^verbatim>\<open>(path, slug)\<close> of a page.
\<close>

datatype verdict = Covered | Missing

definition spec_verdict :: "py_dict \<Rightarrow> page \<Rightarrow> verdict" where
  "spec_verdict lookup pg =
     (case pg of (path, slug, has_inline_description) \<Rightarrow>
        if has_inline_description then Covered
        else if has_key lookup slug then Covered
        else Missing)"

definition page_key :: "page \<Rightarrow> string \<times> string" where
  "page_key pg = (case pg of (path, slug, has_inline_description) \<Rightarrow> (path, slug))"

section \<open>Properties of slugify\<close>

lemma set_re_sub_runs: "set (re_sub_runs P rep s) \<subseteq> set rep \<union> {c \<in> set s. \<not> P c}"
proof (induction P rep s rule: re_sub_runs.induct)
  case (1 P rep)
  then show ?case by simp
next
  case (2 P rep c cs)
  have d: "set (dropWhile P cs) \<subseteq> set cs" by (simp add: set_dropWhileD subsetI)
  show ?case
  proof (cases "P c")
    case True
    with 2 have "set (re_sub_runs P rep (dropWhile P cs)) \<subseteq> set rep \<union> {c \<in> set (dropWhile P cs). \<not> P c}"
      by simp
    with d True show ?thesis by auto
  next
    case False
    with 2 have "set (re_sub_runs P rep cs) \<subseteq> set rep \<union> {c \<in> set cs. \<not> P c}"
      by simp
    with False show ?thesis by auto
  qed
qed

lemma re_sub_runs_hd: "s \<noteq> [] \<Longrightarrow> \<not> P (hd s) \<Longrightarrow> re_sub_runs P rep s \<noteq> [] \<and> hd (re_sub_runs P rep s) = hd s"
  by (cases s) auto

lemma dropWhile_hd: "dropWhile P s \<noteq> [] \<Longrightarrow> \<not> P (hd (dropWhile P s))"
  by (simp add: hd_dropWhile)

lemma no_adj_Cons: "no_adj P (a # s) = ((P a \<longrightarrow> s = [] \<or> \<not> P (hd s)) \<and> no_adj P s)"
  by (cases s) auto

lemma no_adj_re_sub_runs: "no_adj P (re_sub_runs P [r] s)"
proof (induction P "[r]" s rule: re_sub_runs.induct)
  case (1 P)
  then show ?case by simp
next
  case (2 P c cs)
  show ?case
  proof (cases "P c")
    case True
    let ?d = "dropWhile P cs"
    have ih: "no_adj P (re_sub_runs P [r] ?d)" using 2(1)[OF True] .
    have "re_sub_runs P [r] ?d = [] \<or> \<not> P (hd (re_sub_runs P [r] ?d))"
    proof (cases "?d = []")
      case empty: True
      have "re_sub_runs P [r] ?d = []" unfolding empty by simp
      then show ?thesis by simp
    next
      case False
      then have "\<not> P (hd ?d)" by (rule dropWhile_hd)
      with False show ?thesis using re_sub_runs_hd[of ?d P "[r]"] by simp
    qed
    with ih have "no_adj P (r # re_sub_runs P [r] ?d)" by (simp only: no_adj_Cons) simp
    with True show ?thesis by simp
  next
    case False
    have ih: "no_adj P (re_sub_runs P [r] cs)" using 2(2)[OF False] .
    with False show ?thesis by (simp add: no_adj_Cons)
  qed
qed

lemma no_adj_drop: "no_adj P s \<Longrightarrow> no_adj P (drop n s)"
proof (induction n arbitrary: s)
  case 0 then show ?case by simp
next
  case (Suc n)
  then show ?case by (cases s) (auto simp: no_adj_Cons)
qed

lemma no_adj_take: "no_adj P s \<Longrightarrow> no_adj P (take n s)"
proof (induction s arbitrary: n)
  case Nil then show ?case by simp
next
  case (Cons a s)
  show ?case
  proof (cases n)
    case 0 then show ?thesis by simp
  next
    case (Suc m)
    have "take m s = [] \<or> hd (take m s) = hd s" by (cases m; cases s) auto
    moreover have "take m s \<noteq> [] \<Longrightarrow> s \<noteq> []" by auto
    ultimately show ?thesis using Cons Suc by (auto simp: no_adj_Cons)
  qed
qed

lemma rstrip_take: "rev (dropWhile P (rev t)) = take (length t - length (takeWhile P (rev t))) t"
proof -
  have "dropWhile P (rev t) = drop (length (takeWhile P (rev t))) (rev t)"
    by (rule dropWhile_eq_drop)
  then have "rev (dropWhile P (rev t)) = rev (drop (length (takeWhile P (rev t))) (rev t))"
    by simp
  also have "\<dots> = take (length t - length (takeWhile P (rev t))) t"
    by (simp add: rev_drop)
  finally show ?thesis .
qed

lemma no_adj_strip: "no_adj Q s \<Longrightarrow> no_adj Q (strip_chars P s)"
proof -
  assume a: "no_adj Q s"
  have "no_adj Q (dropWhile P s)" using a by (simp add: dropWhile_eq_drop no_adj_drop)
  then show ?thesis unfolding strip_chars_def rstrip_take by (rule no_adj_take)
qed

lemma set_strip: "set (strip_chars P s) \<subseteq> set s"
proof -
  have "set (strip_chars P s) \<subseteq> set (dropWhile P s)"
    unfolding strip_chars_def rstrip_take by (rule set_take_subset)
  moreover have "set (dropWhile P s) \<subseteq> set s" by (auto dest: set_dropWhileD)
  ultimately show ?thesis by blast
qed

lemma strip_chars_ends:
  assumes ne: "strip_chars P s \<noteq> []"
  shows "\<not> P (hd (strip_chars P s)) \<and> \<not> P (last (strip_chars P s))"
proof -
  let ?d = "dropWhile P s"
  let ?e = "dropWhile P (rev ?d)"
  have e: "?e \<noteq> []" using ne by (simp add: strip_chars_def)
  have "last (strip_chars P s) = hd ?e" using e by (simp add: strip_chars_def last_rev)
  moreover have "\<not> P (hd ?e)" using e by (rule dropWhile_hd)
  ultimately have l: "\<not> P (last (strip_chars P s))" by simp
  have d: "?d \<noteq> []"
  proof
    assume a: "?d = []"
    have "?e = []" unfolding a by simp
    with e show False by simp
  qed
  have "strip_chars P s = take (length ?d - length (takeWhile P (rev ?d))) ?d"
    unfolding strip_chars_def by (rule rstrip_take)
  moreover from this ne have "0 < length ?d - length (takeWhile P (rev ?d))"
    by (cases "length ?d - length (takeWhile P (rev ?d))") simp_all
  ultimately have "hd (strip_chars P s) = hd ?d" by (simp only: hd_take)
  moreover have "\<not> P (hd ?d)" using d by (rule dropWhile_hd)
  ultimately show ?thesis using l by simp
qed

lemma strip_chars_id: "s = [] \<or> (\<not> P (hd s) \<and> \<not> P (last s)) \<Longrightarrow> strip_chars P s = s"
proof (cases s)
  case Nil then show ?thesis by (simp add: strip_chars_def)
next
  case (Cons a t)
  assume "s = [] \<or> (\<not> P (hd s) \<and> \<not> P (last s))"
  with Cons have h: "\<not> P a" and l: "\<not> P (last s)" by auto
  have "dropWhile P s = s" using h Cons by simp
  moreover have "dropWhile P (rev s) = rev s"
  proof (cases "rev s")
    case Nil
    then show ?thesis by simp
  next
    case (Cons b u)
    have "hd (rev s) = last s" by (rule hd_rev)
    with Cons l have "\<not> P b" by simp
    with Cons show ?thesis by simp
  qed
  ultimately show ?thesis by (simp add: strip_chars_def)
qed

lemma lower_alnum_alnum: "lower_alnum c \<Longrightarrow> alnum c"
  by (auto simp: lower_alnum_def alnum_def)

lemma alnum_lower: "alnum (py_lower_char c) \<Longrightarrow> lower_alnum (py_lower_char c)"
  by (auto simp: lower_alnum_def alnum_def py_lower_char_def code_def split: if_splits)

lemma lower_alnum_fixed: "lower_alnum c \<Longrightarrow> py_lower_char c = c"
  by (auto simp: lower_alnum_def py_lower_char_def)

lemma hyphen_fixed: "py_lower_char (CHR ''-'') = CHR ''-''"
  by (simp add: py_lower_char_def code_def)

lemma hyphen_non_alnum: "non_alnum (CHR ''-'')"
  by (simp add: non_alnum_def alnum_def code_def)

lemma lower_alnum_not_space: "lower_alnum c \<Longrightarrow> \<not> py_isspace c"
  by (auto simp: lower_alnum_def py_isspace_def)

lemma lower_alnum_not_hyphen: "lower_alnum c \<Longrightarrow> \<not> hyphen c"
  by (auto simp: lower_alnum_def hyphen_def code_def)

lemma slug_chars_v1: "slug_chars (re_sub_runs non_alnum ''-'' (py_lower t))"
proof -
  have "set (re_sub_runs non_alnum ''-'' (py_lower t)) \<subseteq> set ''-'' \<union> {c \<in> set (py_lower t). \<not> non_alnum c}"
    by (rule set_re_sub_runs)
  moreover have "\<And>c. c \<in> set (py_lower t) \<Longrightarrow> \<not> non_alnum c \<Longrightarrow> lower_alnum c"
    by (auto simp: py_lower_def non_alnum_def alnum_lower)
  ultimately show ?thesis unfolding slug_chars_def by auto
qed

lemma slug_chars_subset: "slug_chars s \<Longrightarrow> set t \<subseteq> set s \<Longrightarrow> slug_chars t"
  unfolding slug_chars_def by blast

lemma slug_chars_sub_hyphen: "slug_chars s \<Longrightarrow> slug_chars (re_sub_runs hyphen ''-'' s)"
proof -
  assume a: "slug_chars s"
  have "set (re_sub_runs hyphen ''-'' s) \<subseteq> set ''-'' \<union> {c \<in> set s. \<not> hyphen c}"
    by (rule set_re_sub_runs)
  with a show ?thesis unfolding slug_chars_def by auto
qed

lemma canonical_slugify: "canonical (slugify s)"
proof -
  let ?v1 = "re_sub_runs non_alnum ''-'' (py_lower (py_strip s))"
  let ?u = "re_sub_runs hyphen ''-'' ?v1"
  have w: "slugify s = strip_chars hyphen ?u" by (simp add: slugify_def)
  have "slug_chars ?u" by (rule slug_chars_sub_hyphen[OF slug_chars_v1])
  then have c: "slug_chars (slugify s)" unfolding w by (rule slug_chars_subset) (rule set_strip)
  have "no_adj hyphen ?u" by (rule no_adj_re_sub_runs)
  then have n: "no_adj hyphen (slugify s)" unfolding w by (rule no_adj_strip)
  have e: "slugify s \<noteq> [] \<longrightarrow> hd (slugify s) \<noteq> CHR ''-'' \<and> last (slugify s) \<noteq> CHR ''-''"
    unfolding w using strip_chars_ends[of hyphen ?u] by (auto simp: hyphen_def)
  from c n e show ?thesis unfolding canonical_def by simp
qed

lemma canonical_matches:
  "slug_chars w \<Longrightarrow> no_adj hyphen w \<Longrightarrow> (w \<noteq> [] \<longrightarrow> last w \<noteq> CHR ''-'')
   \<Longrightarrow> slug_more w \<and> (w \<noteq> [] \<and> hd w \<noteq> CHR ''-'' \<longrightarrow> slug_seg w)"
proof (induction w)
  case Nil
  then show ?case by simp
next
  case (Cons c cs)
  have sc: "slug_chars cs" using Cons.prems(1) by (simp add: slug_chars_def)
  have na: "no_adj hyphen cs" using Cons.prems(2) by (simp add: no_adj_Cons)
  have la: "cs \<noteq> [] \<longrightarrow> last cs \<noteq> CHR ''-''" using Cons.prems(3) by (auto split: if_splits)
  from Cons.IH[OF sc na la] have more: "slug_more cs"
    and seg: "cs \<noteq> [] \<and> hd cs \<noteq> CHR ''-'' \<longrightarrow> slug_seg cs" by simp_all
  have c: "lower_alnum c \<or> c = CHR ''-''" using Cons.prems(1) by (simp add: slug_chars_def)
  show ?case
  proof (cases "lower_alnum c")
    case True
    with more show ?thesis by simp
  next
    case False
    with c have h: "c = CHR ''-''" by simp
    with Cons.prems(3) have "cs \<noteq> []" by auto
    moreover from h Cons.prems(2) have "cs = [] \<or> hd cs \<noteq> CHR ''-''"
      by (simp add: no_adj_Cons hyphen_def)
    ultimately have "slug_seg cs" using seg by simp
    with False h show ?thesis by simp
  qed
qed

lemma canonical_shape: "canonical w \<Longrightarrow> w = [] \<or> slug_seg w"
  unfolding canonical_def using canonical_matches[of w] by blast

lemma re_sub_runs_canonical:
  assumes "slug_chars w" "no_adj hyphen w" "\<And>c. P c \<Longrightarrow> c \<in> set w \<Longrightarrow> c = CHR ''-''"
  shows "re_sub_runs P ''-'' w = w"
  using assms
proof (induction w)
  case Nil
  then show ?case by simp
next
  case (Cons c cs)
  have sc: "slug_chars cs" using Cons.prems(1) by (simp add: slug_chars_def)
  have na: "no_adj hyphen cs" using Cons.prems(2) by (simp add: no_adj_Cons)
  have ih: "re_sub_runs P ''-'' cs = cs" using Cons.IH[OF sc na] Cons.prems(3) by simp
  show ?case
  proof (cases "P c")
    case True
    then have h: "c = CHR ''-''" using Cons.prems(3) by simp
    have "dropWhile P cs = cs"
    proof (cases cs)
      case Nil
      then show ?thesis by simp
    next
      case (Cons d ds)
      with h Cons.prems(2) have "d \<noteq> CHR ''-''" by (simp add: hyphen_def)
      then have "\<not> P d" using Cons.prems(3) Cons by auto
      with Cons show ?thesis by simp
    qed
    with True h ih show ?thesis by simp
  next
    case False
    with ih show ?thesis by simp
  qed
qed

lemma slugify_canonical: 
  assumes c: "canonical w"
  shows "slugify w = w"
proof -
  have sc: "slug_chars w" and na: "no_adj hyphen w"
    and ends: "w \<noteq> [] \<longrightarrow> hd w \<noteq> CHR ''-'' \<and> last w \<noteq> CHR ''-''"
    using c by (simp_all add: canonical_def)
  have hdl: "w \<noteq> [] \<longrightarrow> lower_alnum (hd w) \<and> lower_alnum (last w)"
    using sc ends unfolding slug_chars_def by (metis hd_in_set last_in_set)
  have 1: "py_strip w = w" unfolding py_strip_def
    by (rule strip_chars_id) (use hdl lower_alnum_not_space in blast)
  have 2: "py_lower w = w" unfolding py_lower_def
  proof (rule map_idI)
    fix c assume "c \<in> set w"
    with sc have "lower_alnum c \<or> c = CHR ''-''" by (simp add: slug_chars_def)
    then show "py_lower_char c = c" by (auto simp: lower_alnum_fixed hyphen_fixed)
  qed
  have 3: "re_sub_runs non_alnum ''-'' w = w"
    by (rule re_sub_runs_canonical[OF sc na])
       (use sc in \<open>auto simp: slug_chars_def non_alnum_def lower_alnum_alnum\<close>)
  have 4: "re_sub_runs hyphen ''-'' w = w"
    by (rule re_sub_runs_canonical[OF sc na]) (simp add: hyphen_def)
  have 5: "strip_chars hyphen w = w"
    by (rule strip_chars_id) (use ends in \<open>auto simp: hyphen_def\<close>)
  show ?thesis by (simp add: slugify_def 1 2 3 4 5)
qed

text \<open>
  C7. For every string, the result of \<open>slugify\<close> is empty or matches
  \<^verbatim>\<open>^[a-z0-9]+(-[a-z0-9]+)*$\<close>: it has only lower-case letters, digits and hyphens, no
  two hyphens in a row and no hyphen at either end. The empty string gives the empty
  string; \<open>slugify\<close> is a total function.
\<close>

theorem slugify_shape:
  "(slugify s = [] \<or> slug_seg (slugify s)) \<and> canonical (slugify s) \<and> slugify [] = []"
proof -
  have c: "canonical (slugify s)" by (rule canonical_slugify)
  then have "slugify s = [] \<or> slug_seg (slugify s)" by (rule canonical_shape)
  moreover have "slugify [] = []"
    by (simp add: slugify_def py_strip_def strip_chars_def py_lower_def)
  ultimately show ?thesis using c by simp
qed

theorem slugify_shape_witness:
  "slugify ''  Hello,  World!! '' = ''hello-world'' \<and> slug_seg (slugify ''  Hello,  World!! '')
   \<and> canonical (slugify ''  Hello,  World!! '')"
proof -
  have e: "slugify ''  Hello,  World!! '' = ''hello-world''" by code_simp
  from slugify_shape[of "''  Hello,  World!! ''"] show ?thesis
    by (simp only: e list.distinct simp_thms)
qed

text \<open>
  C8. \<open>slugify\<close> is idempotent: applying it to its own result changes nothing.
\<close>

theorem slugify_idempotent: "slugify (slugify s) = slugify s"
  by (rule slugify_canonical) (rule canonical_slugify)

section \<open>Properties of main\<close>

lemma foldl_classify:
  "foldl (classify lookup) (cov, mis) pages =
     (cov @ map page_key (filter (\<lambda>pg. spec_verdict lookup pg = Covered) pages),
      mis @ map page_key (filter (\<lambda>pg. spec_verdict lookup pg = Missing) pages))"
proof (induction pages arbitrary: cov mis)
  case Nil
  then show ?case by simp
next
  case (Cons pg pages)
  obtain path slug inl where pg: "pg = (path, slug, inl)" by (cases pg) auto
  show ?case
  proof (cases "inl \<or> has_key lookup slug")
    case True
    then have "classify lookup (cov, mis) pg = (cov @ [(path, slug)], mis)"
      by (auto simp: classify_def pg)
    moreover from True have "spec_verdict lookup pg = Covered"
      by (auto simp: spec_verdict_def pg)
    ultimately show ?thesis using Cons.IH[of "cov @ [(path, slug)]" mis]
      by (simp add: page_key_def pg)
  next
    case False
    then have "classify lookup (cov, mis) pg = (cov, mis @ [(path, slug)])"
      by (auto simp: classify_def pg)
    moreover from False have "spec_verdict lookup pg = Missing"
      by (auto simp: spec_verdict_def pg)
    ultimately show ?thesis using Cons.IH[of cov "mis @ [(path, slug)]"]
      by (simp add: page_key_def pg)
  qed
qed

lemma verdict_cases: "(spec_verdict lookup pg = Missing) = (spec_verdict lookup pg \<noteq> Covered)"
  by (cases "spec_verdict lookup pg") auto

lemma main_Inr:
  assumes "read_layout_lookup layout_text = Inr lookup"
  shows "main layout_text walk =
     Inr (Stdout \<lparr>total_pages = int (length (fst (classify_pages lookup (iter_layout_pages walk)))),
                  missing_descriptions = snd (classify_pages lookup (iter_layout_pages walk))\<rparr>
            # map (\<lambda>m. Stderr (missing_line m)) (snd (classify_pages lookup (iter_layout_pages walk))),
          if snd (classify_pages lookup (iter_layout_pages walk)) = [] then 0 else 1)"
proof -
  obtain coverage missing where c: "classify_pages lookup (iter_layout_pages walk) = (coverage, missing)"
    by (cases "classify_pages lookup (iter_layout_pages walk)") auto
  show ?thesis by (simp add: main_def assms c Let_def)
qed

lemma main_Inl:
  assumes "read_layout_lookup layout_text = Inl e"
  shows "main layout_text walk = Inl e"
  by (simp add: main_def assms)

text \<open>
  C1. The loop of \<open>main\<close> classifies every page record as the specification says: a
  record with an inline description is covered whatever the lookup holds; otherwise
  it is covered when its slug is a key of the lookup; otherwise it is missing and
  recorded as the pair \<^verbatim>\<open>(path, slug)\<close>. Both lists keep the order of the records.
\<close>

theorem classification_follows_spec:
  "classify_pages lookup pages =
     (map page_key (filter (\<lambda>pg. spec_verdict lookup pg = Covered) pages),
      map page_key (filter (\<lambda>pg. spec_verdict lookup pg = Missing) pages))"
  unfolding classify_pages_def by (simp add: foldl_classify)


theorem classification_follows_spec_witness:
  "classify_pages [(''about-us'', ''Learn'')]
     [(''/r/team.html'', ''team'', True), (''/r/about-us.html'', ''about-us'', False),
      (''/r/contact.html'', ''contact'', False)]
   = ([(''/r/team.html'', ''team''), (''/r/about-us.html'', ''about-us'')],
      [(''/r/contact.html'', ''contact'')])"
proof -
  have "spec_verdict [(''about-us'', ''Learn'')] (''/r/team.html'', ''team'', True) = Covered"
    "spec_verdict [(''about-us'', ''Learn'')] (''/r/about-us.html'', ''about-us'', False) = Covered"
    "spec_verdict [(''about-us'', ''Learn'')] (''/r/contact.html'', ''contact'', False) = Missing"
    by (simp_all add: spec_verdict_def has_key_def)
  then show ?thesis
    using classification_follows_spec[of "[(''about-us'', ''Learn'')]"
      "[(''/r/team.html'', ''team'', True), (''/r/about-us.html'', ''about-us'', False),
        (''/r/contact.html'', ''contact'', False)]"]
    by (simp add: page_key_def)
qed

lemma main_Inr_lookup:
  assumes "main layout_text walk = Inr (events, status)"
  obtains lookup where "read_layout_lookup layout_text = Inr lookup"
  using assms by (cases "read_layout_lookup layout_text") (auto simp: main_def)

lemma missing_line_text:
  "(\<lambda>m. Stderr (missing_line m))
     = (\<lambda>(path, slug). Stderr (''Missing description for slug '' @ [CHR 0x27] @ slug @ [CHR 0x27]
                                  @ '' from '' @ path))"
  by (auto simp: missing_line_def sq_def fun_eq_iff)

text \<open>
  C2. When \<open>main\<close> returns, the status is 0 exactly when the list of missing
  descriptions is empty and 1 exactly when it is not; what is printed is the report
  first and then one line \<^verbatim>\<open>Missing description for slug '<slug>' from <path>\<close> on
  the error stream for each missing page, in the order of the list.
\<close>

theorem exit_status_and_messages:
  assumes "main layout_text walk = Inr (events, status)"
  shows "\<exists>rep. events = Stdout rep
                    # map (\<lambda>(path, slug).
                            Stderr (''Missing description for slug '' @ [CHR 0x27] @ slug @ [CHR 0x27]
                                    @ '' from '' @ path))
                        (missing_descriptions rep)
           \<and> (status = 0 \<longleftrightarrow> missing_descriptions rep = [])
           \<and> (status = 1 \<longleftrightarrow> missing_descriptions rep \<noteq> [])
           \<and> (\<forall>lookup. read_layout_lookup layout_text = Inr lookup \<longrightarrow>
                 missing_descriptions rep = snd (classify_pages lookup (iter_layout_pages walk)))"
proof -
  from assms obtain lookup where l: "read_layout_lookup layout_text = Inr lookup"
    by (rule main_Inr_lookup)
  let ?missing = "snd (classify_pages lookup (iter_layout_pages walk))"
  let ?rep = "\<lparr>total_pages = int (length (fst (classify_pages lookup (iter_layout_pages walk)))),
               missing_descriptions = ?missing\<rparr>"
  let ?line = "\<lambda>(path, slug). Stderr (''Missing description for slug '' @ [CHR 0x27] @ slug @ [CHR 0x27]
                                  @ '' from '' @ path)"
  from assms main_Inr[OF l, of walk]
  have "events = Stdout ?rep # map (\<lambda>m. Stderr (missing_line m)) ?missing"
    and st: "status = (if ?missing = [] then 0 else 1)" by simp_all
  then have ev: "events = Stdout ?rep # map ?line ?missing" by (simp only: missing_line_text)
  show ?thesis
  proof (intro exI[of _ ?rep] conjI)
    show "events = Stdout ?rep # map ?line (missing_descriptions ?rep)"
      using ev by simp
    show "(status = 0) = (missing_descriptions ?rep = [])" using st by simp
    show "(status = 1) = (missing_descriptions ?rep \<noteq> [])" using st by simp
    show "\<forall>lookup. read_layout_lookup layout_text = Inr lookup \<longrightarrow>
            missing_descriptions ?rep = snd (classify_pages lookup (iter_layout_pages walk))"
      using l by simp
  qed
qed

text \<open>
  C3. In the printed report \<^verbatim>\<open>total_pages\<close> is the number of pages classified as
  covered; missing pages are not counted, so \<^verbatim>\<open>total_pages\<close> plus the length of
  \<^verbatim>\<open>missing_descriptions\<close> is the number of page records of the scan.
\<close>

theorem total_pages_counts_covered:
  assumes "main layout_text walk = Inr (events, status)"
  shows "\<exists>rep lines lookup. read_layout_lookup layout_text = Inr lookup \<and> events = Stdout rep # lines
           \<and> total_pages rep =
               int (length (filter (\<lambda>pg. spec_verdict lookup pg = Covered) (iter_layout_pages walk)))
           \<and> missing_descriptions rep =
               map page_key (filter (\<lambda>pg. spec_verdict lookup pg = Missing) (iter_layout_pages walk))
           \<and> total_pages rep + int (length (missing_descriptions rep))
               = int (length (iter_layout_pages walk))"
proof -
  from assms obtain lookup where l: "read_layout_lookup layout_text = Inr lookup"
    by (rule main_Inr_lookup)
  let ?pages = "iter_layout_pages walk"
  let ?cov = "filter (\<lambda>pg. spec_verdict lookup pg = Covered) ?pages"
  let ?mis = "filter (\<lambda>pg. spec_verdict lookup pg = Missing) ?pages"
  have c: "classify_pages lookup ?pages = (map page_key ?cov, map page_key ?mis)"
    unfolding classify_pages_def by (simp add: foldl_classify)
  let ?rep = "\<lparr>total_pages = int (length ?cov), missing_descriptions = map page_key ?mis\<rparr>"
  from assms main_Inr[OF l, of walk] c
  have ev: "events = Stdout ?rep # map (\<lambda>m. Stderr (missing_line m)) (map page_key ?mis)"
    by simp
  have "length ?cov + length ?mis = length ?pages"
    unfolding verdict_cases by (rule sum_length_filter_compl)
  then have "int (length ?cov) + int (length (map page_key ?mis)) = int (length ?pages)"
    by simp
  with l ev show ?thesis by (intro exI[of _ ?rep] exI[of _ "map (\<lambda>m. Stderr (missing_line m)) (map page_key ?mis)"] exI[of _ lookup]) simp
qed

text \<open>
  C9. A page record that the loop body puts in \<^verbatim>\<open>coverage\<close> with the flag false (so
  through the lookup) is put in \<^verbatim>\<open>coverage\<close> with the flag true as well, and a whole
  run gives the same two lists whichever flag that record has.
\<close>

theorem inline_description_keeps_covered:
  assumes "classify lookup (coverage, missing) (path, slug, False) = (coverage @ [(path, slug)], missing)"
  shows "classify lookup (coverage, missing) (path, slug, True) = (coverage @ [(path, slug)], missing)
         \<and> classify_pages lookup (before @ (path, slug, True) # after)
             = classify_pages lookup (before @ (path, slug, False) # after)"
proof -
  have k: "has_key lookup slug"
  proof (rule ccontr)
    assume "\<not> has_key lookup slug"
    then have "classify lookup (coverage, missing) (path, slug, False) = (coverage, missing @ [(path, slug)])"
      by (simp add: classify_def)
    with assms show False by simp
  qed
  have 1: "classify lookup (coverage, missing) (path, slug, True) = (coverage @ [(path, slug)], missing)"
    by (simp add: classify_def)
  have v: "spec_verdict lookup (path, slug, True) = Covered" "spec_verdict lookup (path, slug, False) = Covered"
    using k by (simp_all add: spec_verdict_def)
  have "classify_pages lookup (before @ (path, slug, True) # after)
          = classify_pages lookup (before @ (path, slug, False) # after)"
    unfolding classify_pages_def foldl_classify by (simp add: v page_key_def)
  with 1 show ?thesis by simp
qed

lemma match_entries_block_contains: "match_entries_block s = Some b \<Longrightarrow> contains marker s"
proof -
  assume a: "match_entries_block s = Some b"
  then have p: "strip_prefix marker s \<noteq> None"
    by (auto simp: match_entries_block_def split: option.splits)
  show ?thesis
  proof (cases s)
    case Nil
    with p show ?thesis by (simp add: marker_def)
  next
    case (Cons c cs)
    with p show ?thesis by simp
  qed
qed

lemma search_entries_block_contains: "search_entries_block s = Some b \<Longrightarrow> contains marker s"
proof (induction s)
  case Nil
  then have "match_entries_block [] = Some b" by simp
  then show ?case by (rule match_entries_block_contains)
next
  case (Cons c cs)
  show ?case
  proof (cases "match_entries_block (c # cs)")
    case None
    with Cons show ?thesis by simp
  next
    case (Some b')
    then show ?thesis by (rule match_entries_block_contains)
  qed
qed

text \<open>
  C4. When the text of the layout template does not contain the declaration marker,
  \<open>main\<close> ends with the \<^verbatim>\<open>RuntimeError\<close> of \<open>read_layout_lookup\<close>, whatever files the
  walk holds: no page is classified and nothing is printed. The error is the left
  summand of the result, the report and the missing lines are in the right one.
\<close>

theorem missing_marker_aborts:
  assumes "\<not> contains marker layout_text"
  shows "main layout_text walk
           = Inl (RuntimeError ''Could not locate __layoutPageDescriptionEntries in layout.html'')"
proof -
  have "search_entries_block layout_text = None"
  proof (cases "search_entries_block layout_text")
    case (Some b)
    then have "contains marker layout_text" by (rule search_entries_block_contains)
    with assms show ?thesis by simp
  qed simp
  then show ?thesis by (simp add: main_def read_layout_lookup_def)
qed


theorem exit_status_and_messages_witness:
  "main ''var __layoutPageDescriptionEntries = { 'about-us': 'Learn about our team' };''
     [(''/r'', ''about-us.html'', ''<?!= include('layout', { pageSlug: 'about-us' }) ?>''),
      (''/r'', ''contact.html'', ''<?!= include('layout', { currentPage: 'contact' }) ?>'')]
   = Inr ([Stdout \<lparr>total_pages = 1, missing_descriptions = [(''/r/contact.html'', ''contact'')]\<rparr>,
           Stderr ''Missing description for slug 'contact' from /r/contact.html''], 1)
   \<and> (\<exists>rep. [Stdout \<lparr>total_pages = 1, missing_descriptions = [(''/r/contact.html'', ''contact'')]\<rparr>,
               Stderr ''Missing description for slug 'contact' from /r/contact.html'']
              = Stdout rep
                  # map (\<lambda>(path, slug).
                          Stderr (''Missing description for slug '' @ [CHR 0x27] @ slug @ [CHR 0x27]
                                  @ '' from '' @ path))
                      (missing_descriptions rep)
            \<and> missing_descriptions rep \<noteq> [])"
proof -
  have e: "main ''var __layoutPageDescriptionEntries = { 'about-us': 'Learn about our team' };''
     [(''/r'', ''about-us.html'', ''<?!= include('layout', { pageSlug: 'about-us' }) ?>''),
      (''/r'', ''contact.html'', ''<?!= include('layout', { currentPage: 'contact' }) ?>'')]
   = Inr ([Stdout \<lparr>total_pages = 1, missing_descriptions = [(''/r/contact.html'', ''contact'')]\<rparr>,
           Stderr ''Missing description for slug 'contact' from /r/contact.html''], 1)"
    by code_simp
  from exit_status_and_messages[OF e] e show ?thesis by auto
qed

theorem total_pages_counts_covered_witness:
  "main ''var __layoutPageDescriptionEntries = { 'case-study': 'A case study' };''
     [(''/r'', ''casestudy.html'', ''<?!= include(\"layout\", { title: 'Case' }) ?>''),
      (''/r'', ''contact.html'', ''<?!= include('layout', { currentPage: 'contact' }) ?>''),
      (''/r'', ''team.html'', ''<?!= include('layout', { pageDescription: 'Our team', currentPage: 'team' }) ?>'')]
   = Inr ([Stdout \<lparr>total_pages = 2, missing_descriptions = [(''/r/contact.html'', ''contact'')]\<rparr>,
           Stderr ''Missing description for slug 'contact' from /r/contact.html''], 1)
   \<and> length (iter_layout_pages
     [(''/r'', ''casestudy.html'', ''<?!= include(\"layout\", { title: 'Case' }) ?>''),
      (''/r'', ''contact.html'', ''<?!= include('layout', { currentPage: 'contact' }) ?>''),
      (''/r'', ''team.html'', ''<?!= include('layout', { pageDescription: 'Our team', currentPage: 'team' }) ?>'')]) = 3"
proof -
  have e: "main ''var __layoutPageDescriptionEntries = { 'case-study': 'A case study' };''
     [(''/r'', ''casestudy.html'', ''<?!= include(\"layout\", { title: 'Case' }) ?>''),
      (''/r'', ''contact.html'', ''<?!= include('layout', { currentPage: 'contact' }) ?>''),
      (''/r'', ''team.html'', ''<?!= include('layout', { pageDescription: 'Our team', currentPage: 'team' }) ?>'')]
   = Inr ([Stdout \<lparr>total_pages = 2, missing_descriptions = [(''/r/contact.html'', ''contact'')]\<rparr>,
           Stderr ''Missing description for slug 'contact' from /r/contact.html''], 1)"
    by code_simp
  from total_pages_counts_covered[OF e] e show ?thesis by auto
qed

theorem inline_description_keeps_covered_witness:
  "classify [(''about-us'', ''Learn'')] ([], []) (''/r/about-us.html'', ''about-us'', False)
     = ([] @ [(''/r/about-us.html'', ''about-us'')], [])
   \<and> classify [(''about-us'', ''Learn'')] ([], []) (''/r/about-us.html'', ''about-us'', True)
     = ([] @ [(''/r/about-us.html'', ''about-us'')], [])"
proof -
  have h: "classify [(''about-us'', ''Learn'')] ([], []) (''/r/about-us.html'', ''about-us'', False)
     = ([] @ [(''/r/about-us.html'', ''about-us'')], [])"
    by (simp add: classify_def has_key_def)
  from inline_description_keeps_covered[OF h] h show ?thesis by blast
qed

theorem missing_marker_aborts_witness:
  "\<not> contains marker ''<html><body>var entries = {};</body></html>''
   \<and> main ''<html><body>var entries = {};</body></html>''
         [(''/r'', ''contact.html'', ''<?!= include('layout', { currentPage: 'contact' }) ?>'')]
       = Inl (RuntimeError ''Could not locate __layoutPageDescriptionEntries in layout.html'')"
proof -
  have h: "\<not> contains marker ''<html><body>var entries = {};</body></html>''"
    by code_simp
  from missing_marker_aborts[OF h] h show ?thesis by blast
qed

section \<open>Properties of read\_layout\_lookup\<close>

lemma has_key_update: "has_key (AList.update k v al) k' \<longleftrightarrow> k' = k \<or> has_key al k'"
  by (simp add: has_key_def update_conv')




















section \<open>Properties of iter\_layout\_pages\<close>

lemma dropWhile_space_Cons:
  "dropWhile py_isspace s = c # r \<Longrightarrow>
     s = takeWhile py_isspace s @ c # r \<and> (\<forall>x \<in> set (takeWhile py_isspace s). py_isspace x)"
  by (metis takeWhile_dropWhile_id set_takeWhileD)

lemma dropWhile_space_skip:
  "\<forall>x \<in> set w. py_isspace x \<Longrightarrow> \<not> py_isspace c \<Longrightarrow> dropWhile py_isspace (w @ c # r) = c # r"
  by (induction w) auto

lemma comma_not_space: "\<not> py_isspace (CHR '','')"
  by (simp add: py_isspace_def code_def)

lemma brace_not_space: "\<not> py_isspace (CHR ''{'')"
  by (simp add: py_isspace_def code_def)

lemma head_Some_header:
  assumes "match_include_head s = Some r"
  shows "\<exists>h. include_header h \<and> s = h @ r"
proof -
  from assms obtain q1 s1 where 1: "strip_prefix ''include('' s = Some (q1 # s1)" and q1: "is_quote q1"
    by (auto simp: match_include_head_def split: option.splits list.splits if_splits)
  from assms 1 q1 obtain q2 s2 where 2: "strip_prefix ''layout'' s1 = Some (q2 # s2)" and q2: "is_quote q2"
    by (auto simp: match_include_head_def split: option.splits list.splits if_splits)
  from assms 1 q1 2 q2 obtain s3 where 3: "dropWhile py_isspace s2 = CHR '','' # s3"
    by (auto simp: match_include_head_def split: option.splits list.splits if_splits)
  from assms 1 q1 2 q2 3 have 4: "dropWhile py_isspace s3 = CHR ''{'' # r"
    by (auto simp: match_include_head_def split: option.splits list.splits if_splits)
  let ?w1 = "takeWhile py_isspace s2" and ?w2 = "takeWhile py_isspace s3"
  from 1 have "s = ''include('' @ q1 # s1" by (simp only: strip_prefix_Some)
  moreover from 2 have "s1 = ''layout'' @ q2 # s2" by (simp only: strip_prefix_Some)
  moreover from dropWhile_space_Cons[OF 3] have "s2 = ?w1 @ CHR '','' # s3"
    and w1: "\<forall>x \<in> set ?w1. py_isspace x" by simp_all
  moreover from dropWhile_space_Cons[OF 4] have "s3 = ?w2 @ CHR ''{'' # r"
    and w2: "\<forall>x \<in> set ?w2. py_isspace x" by simp_all
  ultimately have s: "s = (''include('' @ q1 # ''layout'' @ q2 # ?w1 @ CHR '','' # ?w2 @ ''{'') @ r"
    by simp
  have "include_header (''include('' @ q1 # ''layout'' @ q2 # ?w1 @ CHR '','' # ?w2 @ ''{'')"
    unfolding include_header_def using q1 q2 w1 w2 by blast
  with s show ?thesis by blast
qed

lemma header_head_Some:
  assumes "include_header h"
  shows "match_include_head (h @ r) = Some r"
proof -
  from assms obtain q1 q2 w1 w2 where q: "is_quote q1" "is_quote q2"
    and w1: "\<forall>c \<in> set w1. py_isspace c" and w2: "\<forall>c \<in> set w2. py_isspace c"
    and h: "h = ''include('' @ q1 # ''layout'' @ q2 # w1 @ CHR '','' # w2 @ ''{''"
    unfolding include_header_def by blast
  have a: "strip_prefix ''include('' (h @ r) = Some (q1 # ''layout'' @ q2 # w1 @ CHR '','' # w2 @ CHR ''{'' # r)"
    unfolding strip_prefix_Some h by simp
  have b: "strip_prefix ''layout'' (''layout'' @ q2 # w1 @ CHR '','' # w2 @ CHR ''{'' # r)
             = Some (q2 # w1 @ CHR '','' # w2 @ CHR ''{'' # r)"
    unfolding strip_prefix_Some by simp
  have c: "dropWhile py_isspace (w1 @ CHR '','' # w2 @ CHR ''{'' # r) = CHR '','' # w2 @ CHR ''{'' # r"
    using w1 comma_not_space by (rule dropWhile_space_skip)
  have d: "dropWhile py_isspace (w2 @ CHR ''{'' # r) = CHR ''{'' # r"
    using w2 brace_not_space by (rule dropWhile_space_skip)
  show ?thesis
    unfolding match_include_head_def a using b c d q by simp
qed

lemma close_not_space: "\<not> py_isspace (CHR ''}'')"
  by (simp add: py_isspace_def code_def)

lemma close_not_quote: "\<not> is_quote (CHR ''}'')"
  by (simp add: is_quote_def sq_def dq_def)

lemma header_no_close:
  assumes "include_header h"
  shows "CHR ''}'' \<notin> set h \<and> h \<noteq> []"
proof -
  from assms obtain q1 q2 w1 w2 where q: "is_quote q1" "is_quote q2"
    and w1: "\<forall>c \<in> set w1. py_isspace c" and w2: "\<forall>c \<in> set w2. py_isspace c"
    and h: "h = ''include('' @ q1 # ''layout'' @ q2 # w1 @ CHR '','' # w2 @ ''{''"
    unfolding include_header_def by blast
  have "CHR ''}'' \<notin> set w1" "CHR ''}'' \<notin> set w2" using w1 w2 close_not_space by blast+
  moreover have "CHR ''}'' \<noteq> q1" "CHR ''}'' \<noteq> q2" using q close_not_quote by blast+
  ultimately show ?thesis unfolding h by simp
qed

lemma break_at_None_iff: "break_at sep s \<noteq> None \<longleftrightarrow> contains sep s"
  by (induction s) (auto split: option.splits)

lemma break_at_occurs: "break_at sep (x @ sep @ y) \<noteq> None"
proof (induction x)
  case Nil
  have "strip_prefix sep (sep @ y) = Some y" by (simp add: strip_prefix_Some)
  then show ?case by (cases "sep @ y") (auto split: option.splits)
next
  case (Cons c x)
  then show ?case by (auto split: option.splits)
qed

lemma strip_prefix_append: "strip_prefix p s = Some r \<Longrightarrow> strip_prefix p (s @ e) = Some (r @ e)"
  by (simp add: strip_prefix_Some)

lemma strip_prefix_None_append:
  "strip_prefix p s = None \<Longrightarrow> length p \<le> length s \<Longrightarrow> strip_prefix p (s @ e) = None"
  by (induction p s rule: strip_prefix.induct) (auto split: if_splits)

lemma break_at_append:
  "break_at sep s = Some (a, r) \<Longrightarrow> break_at sep (s @ e) = Some (a, r @ e)"
proof (induction s arbitrary: a)
  case Nil
  then have "sep = []" "a = []" "r = []" by (simp_all split: if_splits)
  then show ?case by (cases e) simp_all
next
  case (Cons c cs)
  show ?case
  proof (cases "strip_prefix sep (c # cs)")
    case (Some r')
    with Cons.prems have "a = []" "r' = r" by simp_all
    moreover from Some have "strip_prefix sep ((c # cs) @ e) = Some (r' @ e)" by (rule strip_prefix_append)
    ultimately show ?thesis by simp
  next
    case None
    with Cons.prems obtain a' where a: "break_at sep cs = Some (a', r)" "a = c # a'"
      by (auto split: option.splits)
    from a(1) have "cs = a' @ sep @ r" by (rule break_at_Some)
    then have "length sep \<le> length (c # cs)" by simp
    with None have "strip_prefix sep ((c # cs) @ e) = None" by (rule strip_prefix_None_append)
    with Cons.IH[OF a(1)] a(2) show ?thesis by simp
  qed
qed

lemma match_include_append: "match_include s = Some b \<Longrightarrow> match_include (s @ e) = Some b"
proof -
  assume a: "match_include s = Some b"
  then obtain r rest where r: "match_include_head s = Some r" and br: "break_at ''})'' r = Some (b, rest)"
    by (auto simp: match_include_def split: option.splits)
  from head_Some_header[OF r] obtain h where h: "include_header h" "s = h @ r" by blast
  then have "match_include_head (s @ e) = Some (r @ e)" using header_head_Some[of h "r @ e"] by simp
  moreover from br have "break_at ''})'' (r @ e) = Some (b, rest @ e)" by (rule break_at_append)
  ultimately show ?thesis by (simp add: match_include_def)
qed

lemma match_include_occurs:
  "match_include s = Some b \<Longrightarrow> \<exists>h rest. include_header h \<and> s = h @ b @ ''})'' @ rest"
proof -
  assume a: "match_include s = Some b"
  then obtain r rest where r: "match_include_head s = Some r" and br: "break_at ''})'' r = Some (b, rest)"
    by (auto simp: match_include_def split: option.splits)
  from head_Some_header[OF r] obtain h where h: "include_header h" "s = h @ r" by blast
  from br have "r = b @ ''})'' @ rest" by (rule break_at_Some)
  with h show ?thesis by blast
qed

text \<open>The search gives the leftmost match: no position before it has a match.\<close>

lemma include_search_Some:
  "include_search s = Some b \<Longrightarrow>
     \<exists>pre p. s = pre @ p \<and> match_include p = Some b
        \<and> (\<forall>pre' p'. s = pre' @ p' \<and> length pre' < length pre \<longrightarrow> match_include p' = None)"
proof (induction s)
  case Nil
  then have "match_include [] = Some b" by simp
  then show ?case by fastforce
next
  case (Cons c cs)
  show ?case
  proof (cases "match_include (c # cs)")
    case (Some b')
    with Cons.prems have "match_include (c # cs) = Some b" by simp
    then have "c # cs = [] @ (c # cs) \<and> match_include (c # cs) = Some b
        \<and> (\<forall>pre' p'. c # cs = pre' @ p' \<and> length pre' < length ([]::string) \<longrightarrow> match_include p' = None)"
      by simp
    then show ?thesis by blast
  next
    case None
    with Cons.prems have "include_search cs = Some b" by simp
    from Cons.IH[OF this] obtain pre p where p: "cs = pre @ p" "match_include p = Some b"
      and first: "\<forall>pre' p'. cs = pre' @ p' \<and> length pre' < length pre \<longrightarrow> match_include p' = None"
      by blast
    have "\<forall>pre' p'. c # cs = pre' @ p' \<and> length pre' < length (c # pre) \<longrightarrow> match_include p' = None"
    proof (intro allI impI)
      fix pre' p' assume a: "c # cs = pre' @ p' \<and> length pre' < length (c # pre)"
      show "match_include p' = None"
      proof (cases pre')
        case Nil
        with a None show ?thesis by simp
      next
        case (Cons d pre'')
        with a have "cs = pre'' @ p'" "length pre'' < length pre" by simp_all
        with first show ?thesis by blast
      qed
    qed
    moreover have "c # cs = (c # pre) @ p" using p by simp
    ultimately show ?thesis using p(2) by blast
  qed
qed

lemma include_search_occurs: "include_search s = Some b \<Longrightarrow> \<exists>x y. s = x @ ''})'' @ y"
proof -
  assume "include_search s = Some b"
  from include_search_Some[OF this] obtain pre p where p: "s = pre @ p" "match_include p = Some b"
    by blast
  from match_include_occurs[OF p(2)] obtain h rest where "p = h @ b @ ''})'' @ rest" by blast
  with p have "s = (pre @ h @ b) @ ''})'' @ rest" by simp
  then show ?thesis by blast
qed

lemma head_None_append:
  assumes "match_include_head s = None" "match_include_head (s @ e) = Some r"
  shows "CHR ''}'' \<notin> set s"
proof -
  from head_Some_header[OF assms(2)] obtain h where h: "include_header h" "s @ e = h @ r" by blast
  from h(2) consider u where "s = h @ u" | u where "s @ u = h"
    by (auto simp: append_eq_append_conv2)
  then show ?thesis
  proof cases
    case 1
    with header_head_Some[OF h(1), of u] assms(1) show ?thesis by simp
  next
    case 2
    then have "set s \<subseteq> set h" by auto
    with header_no_close[OF h(1)] show ?thesis by blast
  qed
qed

lemma include_search_append:
  "include_search s = Some b \<Longrightarrow> include_search (s @ e) = Some b"
proof (induction s)
  case Nil
  then have "match_include [] = Some b" by simp
  then have "match_include ([] @ e) = Some b" by (rule match_include_append)
  then show ?case by (cases e) simp_all
next
  case (Cons c cs)
  show ?case
  proof (cases "match_include (c # cs)")
    case (Some b')
    with Cons.prems have "match_include (c # cs) = Some b" by simp
    then have "match_include ((c # cs) @ e) = Some b" by (rule match_include_append)
    then show ?thesis by simp
  next
    case None
    with Cons.prems have later: "include_search cs = Some b" by simp
    from include_search_occurs[OF later] obtain x y where occ: "cs = x @ ''})'' @ y" by blast
    have "match_include ((c # cs) @ e) = None"
    proof (cases "match_include_head (c # cs)")
      case hn: None
      have "match_include_head ((c # cs) @ e) = None"
      proof (cases "match_include_head ((c # cs) @ e)")
        case (Some r)
        from head_None_append[OF hn Some] occ show ?thesis by simp
      qed simp
      then show ?thesis by (simp add: match_include_def)
    next
      case (Some r)
      with None have br: "break_at ''})'' r = None"
        by (auto simp: match_include_def split: option.splits)
      from head_Some_header[OF Some] obtain h where h: "include_header h" "c # cs = h @ r" by blast
      from header_no_close[OF h(1)] obtain h' where h': "h = c # h'" "CHR ''}'' \<notin> set h'"
        using h(2) by (cases h) auto
      with h(2) occ have "h' @ r = x @ ''})'' @ y" by simp
      then consider u where "h' = x @ u" "u @ r = ''})'' @ y" | u where "h' @ u = x" "r = u @ ''})'' @ y"
        by (auto simp: append_eq_append_conv2)
      then have "\<exists>u. r = u @ ''})'' @ y"
      proof cases
        case 1
        show ?thesis
        proof (cases u)
          case Nil
          with 1 have "r = [] @ ''})'' @ y" by simp
          then show ?thesis by blast
        next
          case (Cons d u')
          with 1 have "d = CHR ''}''" "d \<in> set h'" by simp_all
          with h'(2) show ?thesis by simp
        qed
      next
        case 2
        then show ?thesis by blast
      qed
      then obtain u where "r = u @ ''})'' @ y" by blast
      with break_at_occurs[of "''})''" u y] br show ?thesis by simp
    qed
    with Cons.IH[OF later] show ?thesis by simp
  qed
qed

lemma iter_single:
  "iter_layout_pages [f] = (case scan_file f of None \<Rightarrow> [] | Some pg \<Rightarrow> [pg])"
  by (simp add: iter_layout_pages_def map_filter_simps split: option.splits)

text \<open>
  C10. When the text of a file has a layout include, the block that the scan uses is
  group 1 of the match at the leftmost matching position, and whatever follows in the
  file, further includes among it, changes nothing: the search gives the same block,
  the record of the file (path, slug, inline flag) is the same, and a file gives one
  record, never more.
\<close>

theorem first_invocation_only:
  assumes "include_search text = Some block"
  shows "(\<exists>pre p. text = pre @ p \<and> match_include p = Some block
            \<and> (\<forall>pre' p'. text = pre' @ p' \<and> length pre' < length pre \<longrightarrow> match_include p' = None))
         \<and> include_search (text @ later) = Some block
         \<and> scan_file (current_root, filename, text @ later) = scan_file (current_root, filename, text)
         \<and> (endswith filename ''.html'' \<longrightarrow>
              iter_layout_pages [(current_root, filename, text @ later)]
                = [(path_join current_root filename, slugify (slug_candidate block filename),
                    contains ''pageDescription'' block)])
         \<and> length (iter_layout_pages [(current_root, filename, text @ later)]) \<le> 1"
proof -
  have 1: "\<exists>pre p. text = pre @ p \<and> match_include p = Some block
            \<and> (\<forall>pre' p'. text = pre' @ p' \<and> length pre' < length pre \<longrightarrow> match_include p' = None)"
    using assms by (rule include_search_Some)
  have 2: "include_search (text @ later) = Some block" using assms by (rule include_search_append)
  have 3: "scan_file (current_root, filename, text @ later) = scan_file (current_root, filename, text)"
    by (simp add: scan_file_def 2 assms)
  have 4: "endswith filename ''.html'' \<longrightarrow>
              iter_layout_pages [(current_root, filename, text @ later)]
                = [(path_join current_root filename, slugify (slug_candidate block filename),
                    contains ''pageDescription'' block)]"
    by (simp add: iter_single scan_file_def 2)
  have 5: "length (iter_layout_pages [(current_root, filename, text @ later)]) \<le> 1"
    by (simp add: iter_single split: option.splits)
  from 1 2 3 4 5 show ?thesis by blast
qed

theorem first_invocation_only_witness:
  "include_search ''<?!= include('layout', { pageSlug: 'first' }) ?>'' = Some '' pageSlug: 'first' ''
   \<and> iter_layout_pages [(''/r'', ''p.html'',
        ''<?!= include('layout', { pageSlug: 'first' }) ?>''
        @ ''<?!= include('layout', { pageSlug: 'second', pageDescription: 'x' }) ?>'')]
     = [(''/r/p.html'', ''first'', False)]"
proof -
  have h: "include_search ''<?!= include('layout', { pageSlug: 'first' }) ?>'' = Some '' pageSlug: 'first' ''"
    by code_simp
  have e: "endswith ''p.html'' ''.html''" by code_simp
  have p: "path_join ''/r'' ''p.html'' = ''/r/p.html''" by code_simp
  have s: "slugify (slug_candidate '' pageSlug: 'first' '' ''p.html'') = ''first''" by code_simp
  have d: "contains ''pageDescription'' '' pageSlug: 'first' '' = False" by code_simp
  note t = first_invocation_only[OF h,
      where later = "''<?!= include('layout', { pageSlug: 'second', pageDescription: 'x' }) ?>''"
        and filename = "''p.html''" and current_root = "''/r''"]
  note i = t[THEN conjunct2, THEN conjunct2, THEN conjunct2, THEN conjunct1, THEN mp, OF e]
  from i h show ?thesis by (simp only: p s d simp_thms)
qed

section \<open>The slug candidate\<close>

lemma split_bars_unfold:
  "break_at ''||'' s = Some (a, r) \<Longrightarrow> split_bars s = a # split_bars r"
  "break_at ''||'' s = None \<Longrightarrow> split_bars s = [s]"
  by (subst split_bars.simps, simp)+

lemma split_bars_nonempty: "split_bars s \<noteq> []"
  by (subst split_bars.simps) (simp split: option.splits)

lemma split_bars_length: "contains ''||'' v \<Longrightarrow> 1 < length (split_bars v)"
proof -
  assume "contains ''||'' v"
  then obtain a r where b: "break_at ''||'' v = Some (a, r)"
    using break_at_None_iff[of "''||''" v] by auto
  have "split_bars r \<noteq> []" by (rule split_bars_nonempty)
  then have "0 < length (split_bars r)" by simp
  then show ?thesis by (simp add: split_bars_unfold(1)[OF b])
qed

lemma break_at_bars:
  "\<not> contains ''||'' (l @ ''|'') \<Longrightarrow> break_at ''||'' (l @ ''||'' @ r) = Some (l, r)"
proof (induction l)
  case Nil
  then show ?case by simp
next
  case (Cons c l)
  from Cons.prems have n: "strip_prefix ''||'' ((c # l) @ ''|'') = None"
    and rest: "\<not> contains ''||'' (l @ ''|'')" by simp_all
  have "strip_prefix ''||'' ((c # l) @ ''||'' @ r) = None"
  proof (cases l)
    case Nil
    with n show ?thesis by (simp split: if_splits)
  next
    case (Cons d l')
    with n show ?thesis by (auto split: if_splits)
  qed
  with Cons.IH[OF rest] show ?case by simp
qed

lemma split_second_single:
  assumes "\<not> contains ''||'' (l @ ''|'')" "\<not> contains ''||'' r"
  shows "split_bars (l @ ''||'' @ r) ! 1 = r"
proof -
  have 1: "break_at ''||'' (l @ ''||'' @ r) = Some (l, r)" using assms(1) by (rule break_at_bars)
  have 2: "break_at ''||'' r = None" using assms(2) break_at_None_iff[of "''||''" r]
    by (cases "break_at ''||'' r") simp_all
  show ?thesis unfolding split_bars_unfold(1)[OF 1] split_bars_unfold(2)[OF 2] by simp
qed

lemma split_second_several:
  assumes "\<not> contains ''||'' (l @ ''|'')" "\<not> contains ''||'' (m @ ''|'')"
  shows "split_bars (l @ ''||'' @ m @ ''||'' @ t) ! 1 = m"
proof -
  have 1: "break_at ''||'' (l @ ''||'' @ m @ ''||'' @ t) = Some (l, m @ ''||'' @ t)"
    using assms(1) by (rule break_at_bars)
  have 2: "break_at ''||'' (m @ ''||'' @ t) = Some (m, t)" using assms(2) by (rule break_at_bars)
  show ?thesis unfolding split_bars_unfold(1)[OF 1] split_bars_unfold(1)[OF 2] by simp
qed

lemma contains_occurs: "contains sep (x @ sep @ y)"
  using break_at_occurs[of sep x y] break_at_None_iff[of sep "x @ sep @ y"] by simp

lemma clean_value_single:
  assumes "\<not> contains ''||'' (l @ ''|'')" "\<not> contains ''||'' r"
  shows "clean_value (l @ ''||'' @ r) = py_strip (filter (\<lambda>c. \<not> quote_or_paren c) r)"
proof -
  have c: "contains ''||'' (l @ ''||'' @ r)" by (rule contains_occurs)
  show ?thesis
    unfolding clean_value_def Let_def if_P[OF c] split_second_single[OF assms] by (rule refl)
qed

lemma clean_value_several:
  assumes "\<not> contains ''||'' (l @ ''|'')" "\<not> contains ''||'' (m @ ''|'')"
  shows "clean_value (l @ ''||'' @ m @ ''||'' @ t) = py_strip (filter (\<lambda>c. \<not> quote_or_paren c) m)"
proof -
  have c: "contains ''||'' (l @ ''||'' @ m @ ''||'' @ t)" by (rule contains_occurs)
  show ?thesis
    unfolding clean_value_def Let_def if_P[OF c] split_second_several[OF assms] by (rule refl)
qed

text \<open>
  C5, as stated, fails: in the block \<^verbatim>\<open>pageSlug: x || ""\<close> the property \<^verbatim>\<open>pageSlug\<close>
  has a value with \<^verbatim>\<open>||\<close>, its right-hand operand is empty once quotes are stripped,
  and the candidate is not that empty string but the base name of the file. The
  guard \<^verbatim>\<open>if value:\<close> of the loop passes over a property whose value ends up empty.
\<close>

theorem fallback_operand_counterexample:
  "map_of (dict (findall_props '' pageSlug: x || \"\" '')) ''pageSlug'' = Some ''x || \"\" ''
   \<and> contains ''||'' ''x || \"\" ''
   \<and> py_strip (filter (\<lambda>c. \<not> quote_or_paren c) (split_bars ''x || \"\" '' ! 1)) = []
   \<and> slug_candidate '' pageSlug: x || \"\" '' ''about.html'' = ''about''"
  by code_simp

lemma rfind_None: "c \<notin> set s \<Longrightarrow> rfind c s = None"
  by (simp add: rfind_def)

lemma rfind_last: "c \<notin> set ext \<Longrightarrow> rfind c (base @ c # ext) = Some (length base)"
proof -
  assume a: "c \<notin> set ext"
  have "rev (base @ c # ext) = rev ext @ c # rev base" by simp
  moreover have "takeWhile (\<lambda>x. x \<noteq> c) (rev ext @ c # rev base) = rev ext"
    using a by (auto simp: takeWhile_tail)
  ultimately have "length (takeWhile (\<lambda>x. x \<noteq> c) (rev (base @ c # ext))) = length ext"
    by simp
  then show ?thesis by (simp add: rfind_def)
qed

lemma splitext_root_ext:
  assumes "CHR ''/'' \<notin> set base" "CHR ''/'' \<notin> set ext" "CHR ''.'' \<notin> set ext"
    and "\<exists>c \<in> set base. c \<noteq> CHR ''.''"
  shows "splitext_root (base @ ''.'' @ ext) = base"
proof -
  have d: "rfind (CHR ''.'') (base @ ''.'' @ ext) = Some (length base)"
    using rfind_last[OF assms(3), of base] by simp
  have s: "rfind (CHR ''/'') (base @ ''.'' @ ext) = None"
    using assms(1,2) by (intro rfind_None) simp
  show ?thesis unfolding splitext_root_def d s using assms(4) by simp
qed

lemma spaces_no_bars: "\<forall>c \<in> set ws. py_isspace c \<Longrightarrow> \<not> contains ''||'' ws"
proof (induction ws)
  case Nil
  then show ?case by simp
next
  case (Cons w ws)
  then have "py_isspace w" by simp
  then have "w \<noteq> CHR ''|''" by (auto simp: py_isspace_def code_def)
  with Cons show ?case by simp
qed

lemma strip_chars_trailing:
  assumes "\<forall>c \<in> set ws. P c"
  shows "strip_chars P (s @ ws) = strip_chars P s"
proof (cases "\<forall>c \<in> set s. P c")
  case True
  then have a: "dropWhile P (s @ ws) = []" and b: "dropWhile P s = []" using assms by auto
  show ?thesis unfolding strip_chars_def a b by simp
next
  case False
  then have a: "dropWhile P (s @ ws) = dropWhile P s @ ws" by (auto simp: dropWhile_append1)
  have b: "dropWhile P (rev ws @ rev (dropWhile P s)) = dropWhile P (rev (dropWhile P s))"
    using assms by (intro dropWhile_append2) simp
  show ?thesis unfolding strip_chars_def a rev_append b by (rule refl)
qed

lemma space_not_quote_or_paren: "py_isspace c \<Longrightarrow> \<not> quote_or_paren c"
  by (auto simp: py_isspace_def quote_or_paren_def sq_def dq_def code_def)

lemma clean_value_fallback_slug:
  assumes "\<forall>c \<in> set ws. py_isspace c"
  shows "clean_value (''(someVar || 'fallback-slug')'' @ ws) = ''fallback-slug''"
proof -
  have l: "\<not> contains ''||'' (''(someVar '' @ ''|'')" by code_simp
  have "\<not> contains ''||'' ws" using assms by (rule spaces_no_bars)
  moreover have "ws = [] \<or> hd ws \<noteq> CHR ''|''"
    using assms by (cases ws) (auto simp: py_isspace_def code_def)
  ultimately have r: "\<not> contains ''||'' ('' 'fallback-slug')'' @ ws)"
    by (cases ws) simp_all
  have e: "''(someVar || 'fallback-slug')'' @ ws = ''(someVar '' @ ''||'' @ ('' 'fallback-slug')'' @ ws)"
    by simp
  have f: "filter (\<lambda>c. \<not> quote_or_paren c) ('' 'fallback-slug')'' @ ws) = '' fallback-slug'' @ ws"
  proof -
    have "filter (\<lambda>c. \<not> quote_or_paren c) ws = ws"
      using assms by (intro filter_True) (simp add: space_not_quote_or_paren)
    moreover have "filter (\<lambda>c. \<not> quote_or_paren c) '' 'fallback-slug')'' = '' fallback-slug''"
      by code_simp
    ultimately show ?thesis by (simp only: filter_append)
  qed
  have s: "py_strip '' fallback-slug'' = ''fallback-slug''" by code_simp
  have "clean_value (''(someVar '' @ ''||'' @ ('' 'fallback-slug')'' @ ws))
          = py_strip (filter (\<lambda>c. \<not> quote_or_paren c) ('' 'fallback-slug')'' @ ws))"
    using l r by (rule clean_value_single)
  also have "\<dots> = py_strip ('' fallback-slug'' @ ws)" by (simp only: f)
  also have "\<dots> = py_strip '' fallback-slug''"
    unfolding py_strip_def using assms by (rule strip_chars_trailing)
  finally show ?thesis unfolding e by (simp only: s)
qed

lemma candidate_both:
  "candidate_from_props props [''pageSlug'', ''currentPage''] =
     (case map_of props ''pageSlug'' of
        Some v \<Rightarrow> if clean_value v \<noteq> [] then clean_value v
                  else (case map_of props ''currentPage'' of
                          Some u \<Rightarrow> clean_value u | None \<Rightarrow> [])
      | None \<Rightarrow> (case map_of props ''currentPage'' of
                   Some u \<Rightarrow> clean_value u | None \<Rightarrow> []))"
  by (simp split: option.splits)

text \<open>
  C5, amended. \<^verbatim>\<open>pageSlug\<close> is tried first and \<^verbatim>\<open>currentPage\<close> second; the first of
  them that is in the property map with a value that is not empty after the
  processing gives the slug candidate. The processing of a value with \<^verbatim>\<open>||\<close> takes
  the right-hand operand of the first \<^verbatim>\<open>||\<close> (up to the next \<^verbatim>\<open>||\<close> when there is
  one), removes quotes and parentheses and trims white space. A property whose
  processed value is empty is passed over; when neither property gives a value the
  candidate is the name of the file without its extension. A block with the property
  \<^verbatim>\<open>pageSlug: (someVar || 'fallback-slug')\<close>, whatever else it holds, gives
  \<^verbatim>\<open>fallback-slug\<close>, whatever the file is called.
\<close>

theorem fallback_operand_nonempty:
  "(map_of (dict (findall_props block)) ''pageSlug'' = Some v \<and> clean_value v \<noteq> []
      \<longrightarrow> slug_candidate block filename = clean_value v)
   \<and> ((map_of (dict (findall_props block)) ''pageSlug'' = None
        \<or> (\<exists>u. map_of (dict (findall_props block)) ''pageSlug'' = Some u \<and> clean_value u = []))
       \<and> map_of (dict (findall_props block)) ''currentPage'' = Some v \<and> clean_value v \<noteq> []
      \<longrightarrow> slug_candidate block filename = clean_value v)
   \<and> (\<not> contains ''||'' (l @ ''|'') \<and> \<not> contains ''||'' r
      \<longrightarrow> clean_value (l @ ''||'' @ r) = py_strip (filter (\<lambda>c. \<not> quote_or_paren c) r))
   \<and> (\<not> contains ''||'' (l @ ''|'') \<and> \<not> contains ''||'' (m @ ''|'')
      \<longrightarrow> clean_value (l @ ''||'' @ m @ ''||'' @ t) = py_strip (filter (\<lambda>c. \<not> quote_or_paren c) m))
   \<and> slug_candidate '' pageSlug: (someVar || 'fallback-slug') '' filename = ''fallback-slug''
   \<and> ((map_of (dict (findall_props block)) ''pageSlug'' = None
        \<or> (\<exists>u. map_of (dict (findall_props block)) ''pageSlug'' = Some u \<and> clean_value u = []))
       \<and> (map_of (dict (findall_props block)) ''currentPage'' = None
        \<or> (\<exists>u. map_of (dict (findall_props block)) ''currentPage'' = Some u \<and> clean_value u = []))
      \<longrightarrow> slug_candidate block filename = splitext_root filename)
   \<and> (CHR ''/'' \<notin> set base \<and> CHR ''/'' \<notin> set ext \<and> CHR ''.'' \<notin> set ext
       \<and> (\<exists>c \<in> set base. c \<noteq> CHR ''.'')
      \<longrightarrow> splitext_root (base @ ''.'' @ ext) = base)
   \<and> ((\<forall>c \<in> set ws. py_isspace c)
       \<and> map_of (dict (findall_props block)) ''pageSlug'' = Some (''(someVar || 'fallback-slug')'' @ ws)
      \<longrightarrow> slug_candidate block filename = ''fallback-slug'')"
proof -
  let ?props = "dict (findall_props block)"
  have 1: "map_of ?props ''pageSlug'' = Some v \<and> clean_value v \<noteq> []
      \<longrightarrow> slug_candidate block filename = clean_value v"
    by (simp add: slug_candidate_def)
  have 2: "(map_of ?props ''pageSlug'' = None
        \<or> (\<exists>u. map_of ?props ''pageSlug'' = Some u \<and> clean_value u = []))
       \<and> map_of ?props ''currentPage'' = Some v \<and> clean_value v \<noteq> []
      \<longrightarrow> slug_candidate block filename = clean_value v"
    by (auto simp: slug_candidate_def)
  have 3: "\<not> contains ''||'' (l @ ''|'') \<and> \<not> contains ''||'' r
      \<longrightarrow> clean_value (l @ ''||'' @ r) = py_strip (filter (\<lambda>c. \<not> quote_or_paren c) r)"
    using clean_value_single[of l r] by blast
  have 4: "\<not> contains ''||'' (l @ ''|'') \<and> \<not> contains ''||'' (m @ ''|'')
      \<longrightarrow> clean_value (l @ ''||'' @ m @ ''||'' @ t) = py_strip (filter (\<lambda>c. \<not> quote_or_paren c) m)"
    using clean_value_several[of l m t] by blast
  have c: "candidate_from_props (dict (findall_props '' pageSlug: (someVar || 'fallback-slug') ''))
             [''pageSlug'', ''currentPage''] = ''fallback-slug''"
    by code_simp
  have 5: "slug_candidate '' pageSlug: (someVar || 'fallback-slug') '' filename = ''fallback-slug''"
    unfolding slug_candidate_def c by simp
  have 6: "(map_of ?props ''pageSlug'' = None
        \<or> (\<exists>u. map_of ?props ''pageSlug'' = Some u \<and> clean_value u = []))
       \<and> (map_of ?props ''currentPage'' = None
        \<or> (\<exists>u. map_of ?props ''currentPage'' = Some u \<and> clean_value u = []))
      \<longrightarrow> slug_candidate block filename = splitext_root filename"
    by (auto simp: slug_candidate_def)
  have 7: "CHR ''/'' \<notin> set base \<and> CHR ''/'' \<notin> set ext \<and> CHR ''.'' \<notin> set ext
       \<and> (\<exists>c \<in> set base. c \<noteq> CHR ''.'')
      \<longrightarrow> splitext_root (base @ ''.'' @ ext) = base"
    using splitext_root_ext[of base ext] by blast
  have 8: "(\<forall>c \<in> set ws. py_isspace c)
       \<and> map_of ?props ''pageSlug'' = Some (''(someVar || 'fallback-slug')'' @ ws)
      \<longrightarrow> slug_candidate block filename = ''fallback-slug''"
  proof (intro impI, elim conjE)
    assume w: "\<forall>c \<in> set ws. py_isspace c"
      and p: "map_of ?props ''pageSlug'' = Some (''(someVar || 'fallback-slug')'' @ ws)"
    have cv: "clean_value (''(someVar || 'fallback-slug')'' @ ws) = ''fallback-slug''"
      using w by (rule clean_value_fallback_slug)
    show "slug_candidate block filename = ''fallback-slug''"
      unfolding slug_candidate_def candidate_both p by (simp add: cv del: append.simps)
  qed
  from 1 2 3 4 5 6 7 8 show ?thesis by (intro conjI)
qed

theorem fallback_operand_nonempty_witness:
  "slug_candidate '' title: 'T', currentPage: (page || \"Home Page\") '' ''index.html'' = ''Home Page''
   \<and> clean_value ''x || \"\" '' = []
   \<and> slug_candidate '' pageSlug: x || \"\" '' ''about.html'' = ''about''
   \<and> slug_candidate '' title: 'T', pageSlug: (someVar || 'fallback-slug'), pageDescription: 'x' ''
         ''index.html'' = ''fallback-slug''"
proof -
  have a: "map_of (dict (findall_props '' title: 'T', currentPage: (page || \"Home Page\") '')) ''pageSlug'' = None"
    by code_simp
  have b: "map_of (dict (findall_props '' title: 'T', currentPage: (page || \"Home Page\") '')) ''currentPage''
       = Some ''(page || \"Home Page\") ''"
    by code_simp
  have c: "clean_value ''(page || \"Home Page\") '' = ''Home Page''" by code_simp
  then have d: "clean_value ''(page || \"Home Page\") '' \<noteq> []" by simp
  note t = fallback_operand_nonempty[where block = "'' title: 'T', currentPage: (page || \"Home Page\") ''"
      and v = "''(page || \"Home Page\") ''" and filename = "''index.html''"]
  from a b d have "slug_candidate '' title: 'T', currentPage: (page || \"Home Page\") '' ''index.html''
      = clean_value ''(page || \"Home Page\") ''"
    by (intro t[THEN conjunct2, THEN conjunct1, THEN mp]) (intro conjI disjI1)
  then have 1: "slug_candidate '' title: 'T', currentPage: (page || \"Home Page\") '' ''index.html'' = ''Home Page''"
    by (simp only: c)
  have a2: "map_of (dict (findall_props '' pageSlug: x || \"\" '')) ''pageSlug'' = Some ''x || \"\" ''"
    by code_simp
  have b2: "clean_value ''x || \"\" '' = []" by code_simp
  have c2: "map_of (dict (findall_props '' pageSlug: x || \"\" '')) ''currentPage'' = None"
    by code_simp
  note t2 = fallback_operand_nonempty[where block = "'' pageSlug: x || \"\" ''"
      and filename = "''about.html''" and base = "''about''" and ext = "''html''"]
  have e2: "slug_candidate '' pageSlug: x || \"\" '' ''about.html'' = splitext_root ''about.html''"
    by (rule t2[THEN conjunct2, THEN conjunct2, THEN conjunct2, THEN conjunct2, THEN conjunct2,
                THEN conjunct1, THEN mp])
       (rule conjI, rule disjI2, rule exI[of _ "''x || \"\" ''"], rule conjI, rule a2, rule b2,
        rule disjI1, rule c2)
  have "splitext_root (''about'' @ ''.'' @ ''html'') = ''about''"
    by (rule t2[THEN conjunct2, THEN conjunct2, THEN conjunct2, THEN conjunct2, THEN conjunct2,
                THEN conjunct2, THEN conjunct1, THEN mp]) simp
  then have f2: "splitext_root ''about.html'' = ''about''" by simp
  from e2 f2 have 2: "slug_candidate '' pageSlug: x || \"\" '' ''about.html'' = ''about''"
    by (simp only:)
  have a3: "map_of (dict (findall_props
        '' title: 'T', pageSlug: (someVar || 'fallback-slug'), pageDescription: 'x' '')) ''pageSlug''
      = Some (''(someVar || 'fallback-slug')'' @ [])"
    by code_simp
  note t3 = fallback_operand_nonempty[where
      block = "'' title: 'T', pageSlug: (someVar || 'fallback-slug'), pageDescription: 'x' ''"
      and filename = "''index.html''" and ws = "[]"]
  have 3: "slug_candidate '' title: 'T', pageSlug: (someVar || 'fallback-slug'), pageDescription: 'x' ''
         ''index.html'' = ''fallback-slug''"
    by (rule t3[THEN conjunct2, THEN conjunct2, THEN conjunct2, THEN conjunct2, THEN conjunct2,
                THEN conjunct2, THEN conjunct2, THEN mp])
       (rule conjI, simp, rule a3)
  from 1 b2 2 3 show ?thesis by (intro conjI)
qed

end
